theory Spec2Isabelle
  imports Complex_Main
begin

section \<open>Constants of runner.py\<close>

text \<open>
  Times are seconds. The source reads them from \<^verbatim>\<open>perf_counter()\<close> as floats; the model
  uses exact rationals, so that \<^verbatim>\<open>0.1\<close> is the fraction 1/10.
\<close>

type_synonym time = rat

definition NUM_TESTS :: int where
  "NUM_TESTS = 100"

definition NUM_REQUESTS :: int where
  "NUM_REQUESTS = 50"

definition TEST_TIMEOUT :: time where
  "TEST_TIMEOUT = 120"

section \<open>Python's str on integers\<close>

definition digit_char :: "nat \<Rightarrow> char" where
  "digit_char d = ''0123456789'' ! d"

fun digits :: "nat \<Rightarrow> string" where
  "digits n = (if n < 10 then [digit_char n] else digits (n div 10) @ [digit_char (n mod 10)])"

definition str :: "int \<Rightarrow> string" where
  "str i = (if i < 0 then CHR ''-'' # digits (nat (- i)) else digits (nat i))"

section \<open>Exceptions\<close>

text \<open>
  The exceptions the runner can meet. \<^verbatim>\<open>ConnectionError\<close> is the one runner.py imports from
  \<^verbatim>\<open>requests.exceptions\<close>; \<^verbatim>\<open>ConnectTimeout\<close> is a subclass of it in that library,
  \<^verbatim>\<open>ReadTimeout\<close> is not. \<^verbatim>\<open>OSError\<close> is what a failed process launch raises,
  \<^verbatim>\<open>KeyboardInterrupt\<close> the operator's Ctrl-C, \<^verbatim>\<open>UnboundLocalError\<close> a read of a local
  variable that was never assigned.
\<close>

datatype exn =
    ConnectionError
  | ConnectTimeout
  | ReadTimeout
  | OSError
  | KeyboardInterrupt
  | UnboundLocalError

text \<open>\<^verbatim>\<open>except ConnectionError\<close> catches the class and its subclasses.\<close>

fun is_ConnectionError :: "exn \<Rightarrow> bool" where
  "is_ConnectionError ConnectionError = True"
| "is_ConnectionError ConnectTimeout = True"
| "is_ConnectionError _ = False"

section \<open>The readiness predicate (runner.py, lines 23-31)\<close>

text \<open>
  What \<^verbatim>\<open>requests.get("http://127.0.0.1:5001/", {"input": 1})\<close> does is the environment's
  choice: it returns a response with some HTTP status code, or it raises.
\<close>

datatype http = Response nat | Raises exn

fun server_is_up :: "http \<Rightarrow> exn + bool" where
  "server_is_up (Response status) = Inr True"
| "server_is_up (Raises e) = (if is_ConnectionError e then Inr False else Inl e)"

section \<open>The tester generators (runner.py, lines 57-76)\<close>

text \<open>
  A Python dict is an object: the generators receive a reference to it. The store maps
  references to dict contents; \<^verbatim>\<open>env.update({...})\<close> writes through the reference.
  The arguments handed to the \<^verbatim>\<open>Subtask\<close> constructor are returned as a record; its
  \<open>env_ref\<close> is the reference that was passed on.
\<close>

type_synonym ref = nat
type_synonym dict = "string \<rightharpoonup> string"
type_synonym store = "ref \<Rightarrow> dict"

record subtask_args =
  args :: "string list"
  env_ref :: ref
  has_wait_for :: bool

definition dict_update :: "ref \<Rightarrow> (string \<times> string) list \<Rightarrow> store \<Rightarrow> store" where
  "dict_update r kvs h = h(r := fold (\<lambda>(k, v) d. d(k \<mapsto> v)) kvs (h r))"

definition pytest_tester :: "ref \<Rightarrow> store \<Rightarrow> store \<times> subtask_args" where
  "pytest_tester env h =
     (let h' = dict_update env
                 [(''NUM_TESTS'', str NUM_TESTS), (''NUM_REQUESTS'', str NUM_REQUESTS)] h
      in (h', \<lparr>args = [''poetry'', ''run'', ''pytest''], env_ref = env, has_wait_for = False\<rparr>))"

definition jest_tester :: "ref \<Rightarrow> store \<Rightarrow> store \<times> subtask_args" where
  "jest_tester env h =
     (let h' = dict_update env
                 [(''NUM_TESTS'', str NUM_TESTS), (''NUM_REQUESTS'', str NUM_REQUESTS)] h
      in (h', \<lparr>args = [''npm'', ''run'', ''test''], env_ref = env, has_wait_for = False\<rparr>))"

section \<open>Processes and the clock\<close>

text \<open>
  A program, as the environment provides it: \<open>run_time\<close> is how many seconds after its
  launch it exits by itself (\<open>None\<close>: it runs until it is stopped), \<open>exit_code\<close> the
  code it then exits with, and \<open>on_sigint\<close> how it reacts to the interrupt signal:
  \<open>None\<close> when it ignores the signal, \<open>Some (d, c)\<close> when it exits with code \<open>c\<close>,
  \<open>d\<close> seconds after receiving it.
\<close>

record program =
  run_time :: "time option"
  exit_code :: int
  on_sigint :: "(time \<times> int) option"

text \<open>
  A launched process (the state behind a \<^verbatim>\<open>Subtask\<close> handle): the instant at which it
  exits, if that is settled, and the code it exits with.
\<close>

record subtask =
  exit_at :: "time option"
  returncode :: int
  sigint :: "(time \<times> int) option"

definition launch :: "program \<Rightarrow> time \<Rightarrow> subtask" where
  "launch prog t0 =
     \<lparr>exit_at = map_option (\<lambda>r. t0 + r) (run_time prog),
      returncode = exit_code prog,
      sigint = on_sigint prog\<rparr>"

text \<open>
  Modelled from the spec: the \<^verbatim>\<open>Subtask\<close> class of the \<^verbatim>\<open>subtask\<close> module is imported by
  runner.py and is not among the sources. Section 4.1 of the specification describes its
  handle: \<^verbatim>\<open>poll\<close> never blocks and returns the exit status once the process has
  terminated; \<^verbatim>\<open>wait(timeout)\<close> blocks until the process terminates or the timeout
  elapses, whichever comes first, and blocks indefinitely without a timeout;
  \<^verbatim>\<open>interrupt\<close> sends the cooperative signal and does not wait; \<^verbatim>\<open>kill\<close> sends
  the signal that cannot be caught; both are no-ops on a terminated process.
\<close>

definition status :: "subtask \<Rightarrow> time \<Rightarrow> int option" where
  "status h t =
     (case exit_at h of
        None \<Rightarrow> None
      | Some e \<Rightarrow> if e \<le> t then Some (returncode h) else None)"

definition send_sigint :: "subtask \<Rightarrow> time \<Rightarrow> subtask" where
  "send_sigint h t =
     (case status h t of
        Some c \<Rightarrow> h
      | None \<Rightarrow>
          (case sigint h of
             None \<Rightarrow> h
           | Some (d, c) \<Rightarrow>
               (case exit_at h of
                  None \<Rightarrow> h\<lparr>exit_at := Some (t + d), returncode := c\<rparr>
                | Some e \<Rightarrow>
                    if e \<le> t + d then h
                    else h\<lparr>exit_at := Some (t + d), returncode := c\<rparr>)))"

definition send_sigkill :: "subtask \<Rightarrow> time \<Rightarrow> subtask" where
  "send_sigkill h t =
     (case status h t of
        Some c \<Rightarrow> h
      | None \<Rightarrow> h\<lparr>exit_at := Some t, returncode := - 9\<rparr>)"

text \<open>
  \<open>wait_until h t tmo\<close> is \<open>None\<close> when the wait never returns, and otherwise the
  instant at which it returns together with what it returns.
\<close>

definition wait_until :: "subtask \<Rightarrow> time \<Rightarrow> time option \<Rightarrow> (time \<times> int option) option" where
  "wait_until h t tmo =
     (case tmo of
        None \<Rightarrow>
          (case exit_at h of
             None \<Rightarrow> None
           | Some e \<Rightarrow> Some (max t e, Some (returncode h)))
      | Some d \<Rightarrow>
          (case exit_at h of
             None \<Rightarrow> Some (t + d, None)
           | Some e \<Rightarrow>
               if e \<le> t + d then Some (max t e, Some (returncode h))
               else Some (t + d, None)))"

section \<open>Effects: a clock, two process handles, a trace, exceptions\<close>

datatype proc = Server | Tester

datatype outcome = Timeout time | Error | Success time

text \<open>
  What the runner does to the outside world, in order. \<open>Row\<close> is a line of the table
  on standard output, \<open>Progress\<close> a transient line on standard error, \<open>Aborted\<close> the
  notice printed on a keyboard interrupt.
\<close>

datatype event =
    Start proc
  | PerfCounter time
  | Wait proc "time option" "int option"
  | Poll proc "int option"
  | Interrupt proc
  | Kill proc
  | Progress time
  | Row outcome
  | Aborted

text \<open>
  A call returns a value, raises, or never returns. \<open>procs\<close> holds the local variables
  \<^verbatim>\<open>server_proc\<close> and \<^verbatim>\<open>tester_proc\<close> of \<^verbatim>\<open>main\<close>.
\<close>

datatype 'a result = Ok 'a | Raise exn | Hang

record state =
  now :: time
  procs :: "proc \<Rightarrow> subtask option"

type_synonym 'a eff = "state \<Rightarrow> event list \<times> state \<times> 'a result"

definition return :: "'a \<Rightarrow> 'a eff" where
  "return x s = ([], s, Ok x)"

definition bind :: "'a eff \<Rightarrow> ('a \<Rightarrow> 'b eff) \<Rightarrow> 'b eff" where
  "bind m k s =
     (case m s of
        (es, s1, Ok x) \<Rightarrow> (case k x s1 of (es', s2, r) \<Rightarrow> (es @ es', s2, r))
      | (es, s1, Raise e) \<Rightarrow> (es, s1, Raise e)
      | (es, s1, Hang) \<Rightarrow> (es, s1, Hang))"

definition prepend :: "event list \<Rightarrow> event list \<times> state \<times> 'a result \<Rightarrow> event list \<times> state \<times> 'a result" where
  "prepend es r = (case r of (es', s, x) \<Rightarrow> (es @ es', s, x))"

definition perf_counter :: "time eff" where
  "perf_counter s = ([PerfCounter (now s)], s, Ok (now s))"

definition print_output :: "outcome \<Rightarrow> unit eff" where
  "print_output out s = ([Row out], s, Ok ())"

definition print_progress :: "time \<Rightarrow> unit eff" where
  "print_progress duration s = ([Progress duration], s, Ok ())"

text \<open>
  An exception can reach the runner from outside while it is blocked: \<open>Some (t, e)\<close>
  is the instant and the exception (the operator's Ctrl-C is \<open>KeyboardInterrupt\<close>). It is
  raised by the wait that is in progress at that instant.
\<close>

type_synonym fault = "(time \<times> exn) option"

definition fault_in :: "fault \<Rightarrow> time \<Rightarrow> time option \<Rightarrow> (time \<times> exn) option" where
  "fault_in f a b =
     (case f of
        None \<Rightarrow> None
      | Some (t, e) \<Rightarrow>
          if a \<le> t \<and> (case b of None \<Rightarrow> True | Some b' \<Rightarrow> t < b') then Some (t, e)
          else None)"

definition poll :: "proc \<Rightarrow> int option eff" where
  "poll p s =
     (case procs s p of
        None \<Rightarrow> ([], s, Raise UnboundLocalError)
      | Some h \<Rightarrow> ([Poll p (status h (now s))], s, Ok (status h (now s))))"

definition interrupt :: "proc \<Rightarrow> unit eff" where
  "interrupt p s =
     (case procs s p of
        None \<Rightarrow> ([], s, Raise UnboundLocalError)
      | Some h \<Rightarrow>
          ([Interrupt p], s\<lparr>procs := (procs s)(p \<mapsto> send_sigint h (now s))\<rparr>, Ok ()))"

definition kill :: "proc \<Rightarrow> unit eff" where
  "kill p s =
     (case procs s p of
        None \<Rightarrow> ([], s, Raise UnboundLocalError)
      | Some h \<Rightarrow>
          ([Kill p], s\<lparr>procs := (procs s)(p \<mapsto> send_sigkill h (now s))\<rparr>, Ok ()))"

definition wait :: "fault \<Rightarrow> proc \<Rightarrow> time option \<Rightarrow> int option eff" where
  "wait f p tmo s =
     (case procs s p of
        None \<Rightarrow> ([], s, Raise UnboundLocalError)
      | Some h \<Rightarrow>
          (case wait_until h (now s) tmo of
             None \<Rightarrow>
               (case fault_in f (now s) None of
                  None \<Rightarrow> ([], s, Hang)
                | Some (t, e) \<Rightarrow> ([], s\<lparr>now := t\<rparr>, Raise e))
           | Some (t', r) \<Rightarrow>
               (case fault_in f (now s) (Some t') of
                  None \<Rightarrow> ([Wait p tmo r], s\<lparr>now := t'\<rparr>, Ok r)
                | Some (t, e) \<Rightarrow> ([], s\<lparr>now := t\<rparr>, Raise e))))"

section \<open>Spawning (runner.py, lines 41-76)\<close>

text \<open>
  The server generators pass \<^verbatim>\<open>wait_for=server_is_up\<close>: the constructor returns once
  the predicate holds. Whether and when that happens is the environment's: the launch
  fails with an exception, the server never becomes ready (the constructor never
  returns), or it is ready \<open>d\<close> seconds after the call. The tester generators pass no
  predicate: the constructor returns at once, or the launch fails. Any exception that
  the constructor raises, for whatever reason, is a launch that fails.
\<close>

datatype server_launch = LaunchFails exn | NeverReady program | Ready time program

definition spawn_server :: "server_launch \<Rightarrow> unit eff" where
  "spawn_server l s =
     (case l of
        LaunchFails e \<Rightarrow> ([], s, Raise e)
      | NeverReady prog \<Rightarrow>
          ([Start Server], s\<lparr>procs := (procs s)(Server \<mapsto> launch prog (now s))\<rparr>, Hang)
      | Ready d prog \<Rightarrow>
          ([Start Server],
           s\<lparr>now := now s + d, procs := (procs s)(Server \<mapsto> launch prog (now s))\<rparr>, Ok ()))"

definition spawn_tester :: "exn + program \<Rightarrow> unit eff" where
  "spawn_tester l s =
     (case l of
        Inl e \<Rightarrow> ([], s, Raise e)
      | Inr prog \<Rightarrow>
          ([Start Tester], s\<lparr>procs := (procs s)(Tester \<mapsto> launch prog (now s))\<rparr>, Ok ()))"

text \<open>How the environment behaves during one pairing.\<close>

record world =
  server_launch :: server_launch
  tester_launch :: "exn + program"
  fault :: fault

section \<open>One pairing (runner.py, lines 233-280)\<close>

text \<open>
  A timed wait that returns without an exit status has let exactly its timeout pass; this
  is what makes the loop of progress mode terminate.
\<close>

lemma wait_None_now:
  "wait f p (Some d) s = (es, s1, Ok None) \<Longrightarrow> now s1 = now s + d"
  by (auto simp: wait_def wait_until_def split: option.splits if_splits prod.splits)

lemma progress_loop_decreases:
  assumes w: "wait f Tester (Some (1 / 10)) s = (es, s1, Ok None)"
    and le: "\<not> T < now s1 - start_time"
  shows "nat \<lceil>(T - (now s1 - start_time)) * 10\<rceil> < nat \<lceil>(T - (now s - start_time)) * 10\<rceil>"
proof -
  from w have n: "now s1 = now s + 1 / 10"
    by (rule wait_None_now)
  have e: "(T - (now s1 - start_time)) * 10 = (T - (now s - start_time)) * 10 - 1"
    unfolding n by (simp add: algebra_simps)
  have c: "\<lceil>(T - (now s1 - start_time)) * 10\<rceil> = \<lceil>(T - (now s - start_time)) * 10\<rceil> - 1"
    by (simp only: e ceiling_diff_one)
  from le have "0 \<le> (T - (now s1 - start_time)) * 10"
    by simp
  then have "0 \<le> \<lceil>(T - (now s1 - start_time)) * 10\<rceil>"
    by simp
  with c show ?thesis
    by simp
qed

text \<open>
  Lines 242-257, the loop of progress mode. The timeout of the runner is the parameter
  \<open>T\<close>; \<^verbatim>\<open>main\<close> passes \<open>TEST_TIMEOUT\<close>. The result is the flag \<^verbatim>\<open>timeout\<close>.
\<close>

function progress_loop :: "time \<Rightarrow> fault \<Rightarrow> time \<Rightarrow> bool eff" where
  "progress_loop T f start_time s =
     (case wait f Tester (Some (1 / 10)) s of
        (es, s1, Ok None) \<Rightarrow>
          (if now s1 - start_time > T then
             prepend (es @ [PerfCounter (now s1)])
               (bind (interrupt Tester) (\<lambda>_. return True) s1)
           else
             prepend (es @ [PerfCounter (now s1), Progress (now s1 - start_time)])
               (progress_loop T f start_time s1))
      | (es, s1, Ok (Some c)) \<Rightarrow> (es, s1, Ok False)
      | (es, s1, Raise e) \<Rightarrow> (es, s1, Raise e)
      | (es, s1, Hang) \<Rightarrow> (es, s1, Hang))"
  by pat_completeness auto

termination
proof (relation "measure (\<lambda>(T, f, start_time, s). nat \<lceil>(T - (now s - start_time)) * 10\<rceil>)")
  show "wf (measure (\<lambda>(T, f, start_time, s). nat \<lceil>(T - (now s - start_time)) * 10\<rceil>))"
    by simp
next
  fix T :: time and f :: fault and start_time :: time and s :: state
    and es :: "event list" and y s1 r z
  assume "(es, y) = wait f Tester (Some (1 / 10)) s" "(s1, r) = y"
    "r = Ok z" "z = None" "\<not> T < now s1 - start_time"
  then have "wait f Tester (Some (1 / 10)) s = (es, s1, Ok None)"
    by simp
  from progress_loop_decreases [OF this \<open>\<not> T < now s1 - start_time\<close>]
  show "((T, f, start_time, s1), (T, f, start_time, s))
      \<in> measure (\<lambda>(T, f, start_time, s). nat \<lceil>(T - (now s - start_time)) * 10\<rceil>)"
    by simp
qed

text \<open>Lines 259-262, silent mode.\<close>

definition silent_wait :: "time \<Rightarrow> fault \<Rightarrow> bool eff" where
  "silent_wait T f =
     bind (wait f Tester (Some T)) (\<lambda>r.
       if r \<noteq> Some 0 then
         bind (poll Tester) (\<lambda>q.
           if q = None then bind (interrupt Tester) (\<lambda>_. return True)
           else return False)
       else return False)"

definition await_tester :: "time \<Rightarrow> bool \<Rightarrow> fault \<Rightarrow> time \<Rightarrow> bool eff" where
  "await_tester T progress f start_time =
     (if progress then progress_loop T f start_time else silent_wait T f)"

text \<open>Lines 264-266: the server is interrupted, waited on for one second, and killed.\<close>

definition teardown :: "fault \<Rightarrow> unit eff" where
  "teardown f =
     bind (interrupt Server) (\<lambda>_.
     bind (wait f Server (Some 1)) (\<lambda>_.
     kill Server))"

text \<open>Lines 267-280: the row of the table.\<close>

definition report :: "time \<Rightarrow> fault \<Rightarrow> bool \<Rightarrow> time \<Rightarrow> unit eff" where
  "report T f timeout duration =
     (if timeout then print_output (Timeout T)
      else
        bind (wait f Tester None) (\<lambda>r.
          if r \<noteq> Some 0 then print_output Error
          else print_output (Success duration)))"

text \<open>
  Lines 233-280, the body of the loop over the variants. \<open>T\<close> is where the source reads
  \<open>TEST_TIMEOUT\<close>, \<open>progress\<close> is \<^verbatim>\<open>"--progress" in sys.argv\<close>.
\<close>

definition pairing :: "time \<Rightarrow> bool \<Rightarrow> world \<Rightarrow> unit eff" where
  "pairing T progress w =
     bind (spawn_server (server_launch w)) (\<lambda>_.
     bind perf_counter (\<lambda>start_time.
     bind (spawn_tester (tester_launch w)) (\<lambda>_.
     bind (await_tester T progress (fault w) start_time) (\<lambda>timeout.
     bind perf_counter (\<lambda>t.
     bind (teardown (fault w)) (\<lambda>_.
       report T (fault w) timeout (t - start_time)))))))"


section \<open>The variants and the main loop (runner.py, lines 81-185 and 210-288)\<close>

datatype server_variant = flask_jsonify | flask_json_lib | express

datatype tester_variant =
    pytest_flask_testing
  | pytest_real_request_post
  | pytest_real_request_get
  | jest_fetch_post
  | jest_sync_request_post
  | jest_sync_request_curl_post
  | jest_light_my_request
  | jest_fetch_get
  | jest_sync_request_get
  | jest_sync_request_curl_get

record variation =
  server :: server_variant
  tester :: tester_variant





text \<open>The state in which the script starts: the clock reads \<open>t0\<close>, no process exists.\<close>

definition initial :: "time \<Rightarrow> state" where
  "initial t0 = \<lparr>now = t0, procs = (\<lambda>_. None)\<rparr>"

section \<open>Reading a trace\<close>

definition rows :: "event list \<Rightarrow> outcome list" where
  "rows es = concat (map (\<lambda>e. case e of Row out \<Rightarrow> [out] | _ \<Rightarrow> []) es)"

definition readings :: "event list \<Rightarrow> time list" where
  "readings es = concat (map (\<lambda>e. case e of PerfCounter t \<Rightarrow> [t] | _ \<Rightarrow> []) es)"

text \<open>What the waits on a process returned, in order.\<close>

definition waits :: "proc \<Rightarrow> event list \<Rightarrow> int option list" where
  "waits p es =
     concat (map (\<lambda>e. case e of Wait q tmo r \<Rightarrow> if q = p then [r] else [] | _ \<Rightarrow> []) es)"

text \<open>What the waits without a timeout on a process returned, in order.\<close>

definition untimed_waits :: "proc \<Rightarrow> event list \<Rightarrow> int option list" where
  "untimed_waits p es =
     concat (map (\<lambda>e. case e of Wait q tmo r \<Rightarrow> if q = p \<and> tmo = None then [r] else []
                          | _ \<Rightarrow> []) es)"

text \<open>Whether a process exists and has not terminated.\<close>

definition running :: "state \<Rightarrow> proc \<Rightarrow> bool" where
  "running s p = (case procs s p of None \<Rightarrow> False | Some h \<Rightarrow> status h (now s) = None)"

text \<open>The exit status of a process as the final state has it.\<close>

definition exit_status :: "state \<Rightarrow> proc \<Rightarrow> int option" where
  "exit_status s p = (case procs s p of None \<Rightarrow> None | Some h \<Rightarrow> status h (now s))"

text \<open>
  The events of waiting for the tester (lines 241-262): timed waits and polls of the
  tester, clock readings and progress lines.
\<close>

fun observing :: "event \<Rightarrow> bool" where
  "observing (Wait p tmo r) = (p = Tester \<and> tmo \<noteq> None)"
| "observing (Poll p r) = (p = Tester)"
| "observing (PerfCounter t) = True"
| "observing (Progress d) = True"
| "observing _ = False"

text \<open>
  The events by which the runner learns that the tester has terminated, or gives up on
  it: a wait or a poll that returns an exit status, and the interrupt sent on a timeout.
\<close>

fun settled :: "event \<Rightarrow> bool" where
  "settled (Wait p tmo r) = (p = Tester \<and> r \<noteq> None)"
| "settled (Poll p r) = (p = Tester \<and> r \<noteq> None)"
| "settled (Interrupt p) = (p = Tester)"
| "settled _ = False"


text \<open>
  The state once both processes have been launched: the server when the pairing
  begins, the tester \<open>d\<close> seconds later, when the server is ready.
\<close>

definition launched :: "state \<Rightarrow> time \<Rightarrow> program \<Rightarrow> program \<Rightarrow> state" where
  "launched s d sprog tprog =
     s\<lparr>now := now s + d,
       procs := (procs s)(Server \<mapsto> launch sprog (now s),
                          Tester \<mapsto> launch tprog (now s + d))\<rparr>"


text \<open>
  A world in which a launch fails with the exception \<open>e\<close>: that of the server, or,
  once the server is ready, that of the tester.
\<close>

definition launch_fails :: "world \<Rightarrow> exn \<Rightarrow> bool" where
  "launch_fails w e =
     (server_launch w = LaunchFails e
      \<or> (\<exists>d sprog. server_launch w = Ready d sprog) \<and> tester_launch w = Inl e)"



section \<open>Sample worlds\<close>

text \<open>
  A server that runs until it is stopped and exits half a second after an interrupt; a
  world in which it is ready after \<open>d\<close> seconds, the tester launches, and nothing
  arrives from outside.
\<close>

definition sample_server :: program where
  "sample_server = \<lparr>run_time = None, exit_code = 0, on_sigint = Some (1 / 2, 0)\<rparr>"

definition quiet_world :: "time \<Rightarrow> program \<Rightarrow> world" where
  "quiet_world d tprog =
     \<lparr>server_launch = Ready d sample_server, tester_launch = Inr tprog, fault = None\<rparr>"

text \<open>A tester that exits with code \<open>c\<close> after \<open>r\<close> seconds and ignores the interrupt.\<close>

definition sample_tester :: "time \<Rightarrow> int \<Rightarrow> program" where
  "sample_tester r c = \<lparr>run_time = Some r, exit_code = c, on_sigint = None\<rparr>"

text \<open>
  Two testers that never exit by themselves: one ignores the interrupt, the other exits
  with code 130 a tenth of a second after it.
\<close>

definition stubborn_tester :: program where
  "stubborn_tester = \<lparr>run_time = None, exit_code = 0, on_sigint = None\<rparr>"

definition polite_tester :: program where
  "polite_tester = \<lparr>run_time = None, exit_code = 0, on_sigint = Some (1 / 10, 130)\<rparr>"

text \<open>
  Environments for a whole run: in the first every pairing runs in the same quiet world,
  in the second every launch of a server fails with the exception \<open>e\<close>.
\<close>

definition quiet_env :: "variation \<Rightarrow> world" where
  "quiet_env v = quiet_world 2 (sample_tester 1 0)"




declare progress_loop.simps [simp del]

section \<open>Case rules for the effects\<close>

lemma wait_cases:
  assumes "wait f p tmo s = (es, s', r)"
  obtains (unbound) "procs s p = None" "es = []" "s' = s" "r = Raise UnboundLocalError"
  | (hang) h where "procs s p = Some h" "wait_until h (now s) tmo = None"
      "fault_in f (now s) None = None" "es = []" "s' = s" "r = Hang"
  | (fault) h t e where "procs s p = Some h"
      "fault_in f (now s) (map_option fst (wait_until h (now s) tmo)) = Some (t, e)"
      "es = []" "s' = s\<lparr>now := t\<rparr>" "r = Raise e"
  | (return) h t x where "procs s p = Some h" "wait_until h (now s) tmo = Some (t, x)"
      "fault_in f (now s) (Some t) = None" "es = [Wait p tmo x]" "s' = s\<lparr>now := t\<rparr>" "r = Ok x"
proof (cases "procs s p")
  case None
  with assms have "es = []" "s' = s" "r = Raise UnboundLocalError"
    by (simp_all add: wait_def)
  with None show ?thesis by (rule unbound)
next
  case (Some h)
  note h = this
  show ?thesis
  proof (cases "wait_until h (now s) tmo")
    case None
    note wu = this
    show ?thesis
    proof (cases "fault_in f (now s) None")
      case None
      with assms h wu have "es = []" "s' = s" "r = Hang"
        by (simp_all add: wait_def)
      with h wu None show ?thesis by (rule hang)
    next
      case (Some a)
      obtain t e where a: "a = (t, e)" by (cases a)
      from assms h wu Some a have "es = []" "s' = s\<lparr>now := t\<rparr>" "r = Raise e"
        by (simp_all add: wait_def)
      moreover from wu Some a
      have "fault_in f (now s) (map_option fst (wait_until h (now s) tmo)) = Some (t, e)"
        by simp
      ultimately show ?thesis using h by (intro fault [of h t e])
    qed
  next
    case (Some a)
    obtain t' x where a: "a = (t', x)" by (cases a)
    note wu = Some [unfolded a]
    show ?thesis
    proof (cases "fault_in f (now s) (Some t')")
      case None
      with assms h wu have "es = [Wait p tmo x]" "s' = s\<lparr>now := t'\<rparr>" "r = Ok x"
        by (simp_all add: wait_def)
      with h wu None show ?thesis by (rule return)
    next
      case (Some b)
      obtain t e where b: "b = (t, e)" by (cases b)
      from assms h wu Some b have "es = []" "s' = s\<lparr>now := t\<rparr>" "r = Raise e"
        by (simp_all add: wait_def)
      moreover from wu Some b
      have "fault_in f (now s) (map_option fst (wait_until h (now s) tmo)) = Some (t, e)"
        by simp
      ultimately show ?thesis using h by (intro fault [of h t e])
    qed
  qed
qed

lemma wait_until_None:
  "wait_until h t (Some d) = Some (t', None) \<Longrightarrow> t' = t + d \<and> status h (t + d) = None"
  by (auto simp: wait_until_def status_def split: option.splits if_splits)

lemma wait_until_Some:
  "wait_until h t tmo = Some (t', Some c) \<Longrightarrow>
     \<exists>e. exit_at h = Some e \<and> t' = max t e \<and> c = returncode h"
  by (auto simp: wait_until_def split: option.splits if_splits)

lemma wait_until_timed: "wait_until h t (Some d) \<noteq> None"
  by (simp add: wait_until_def split: option.splits)

lemma progress_loop_cases:
  assumes "progress_loop T f st s = (es, s', r)"
  obtains (fire) h where "procs s Tester = Some h"
      "wait_until h (now s) (Some (1 / 10)) = Some (now s + 1 / 10, None)"
      "fault_in f (now s) (Some (now s + 1 / 10)) = None"
      "T < now s + 1 / 10 - st"
      "es = [Wait Tester (Some (1 / 10)) None, PerfCounter (now s + 1 / 10), Interrupt Tester]"
      "s' = s\<lparr>now := now s + 1 / 10, procs := (procs s)(Tester \<mapsto> send_sigint h (now s + 1 / 10))\<rparr>"
      "r = Ok True"
  | (step) h es' where "procs s Tester = Some h"
      "wait_until h (now s) (Some (1 / 10)) = Some (now s + 1 / 10, None)"
      "fault_in f (now s) (Some (now s + 1 / 10)) = None"
      "\<not> T < now s + 1 / 10 - st"
      "progress_loop T f st (s\<lparr>now := now s + 1 / 10\<rparr>) = (es', s', r)"
      "es = [Wait Tester (Some (1 / 10)) None, PerfCounter (now s + 1 / 10),
             Progress (now s + 1 / 10 - st)] @ es'"
  | (exit) h t c where "procs s Tester = Some h"
      "wait_until h (now s) (Some (1 / 10)) = Some (t, Some c)"
      "fault_in f (now s) (Some t) = None"
      "es = [Wait Tester (Some (1 / 10)) (Some c)]" "s' = s\<lparr>now := t\<rparr>" "r = Ok False"
  | (raise) e where "wait f Tester (Some (1 / 10)) s = (es, s', Raise e)" "es = []" "r = Raise e"
proof -
  obtain es1 s1 r1 where w: "wait f Tester (Some (1 / 10)) s = (es1, s1, r1)"
    by (cases "wait f Tester (Some (1 / 10)) s") auto
  from w show thesis
  proof (cases rule: wait_cases)
    case unbound
    with w assms have "wait f Tester (Some (1 / 10)) s = (es, s', Raise UnboundLocalError)"
      "es = []" "r = Raise UnboundLocalError"
      by (simp_all add: progress_loop.simps [of T f st s])
    then show ?thesis by (rule raise)
  next
    case (hang h)
    then show ?thesis by (simp add: wait_until_timed)
  next
    case (fault h t e)
    with w assms have "wait f Tester (Some (1 / 10)) s = (es, s', Raise e)"
      "es = []" "r = Raise e"
      by (simp_all add: progress_loop.simps [of T f st s])
    then show ?thesis by (rule raise)
  next
    case (return h t x)
    show ?thesis
    proof (cases x)
      case None
      with return have t: "t = now s + 1 / 10"
        by (auto dest: wait_until_None)
      show ?thesis
      proof (cases "T < now s + 1 / 10 - st")
        case True
        with w assms return None t
        have "es = [Wait Tester (Some (1 / 10)) None, PerfCounter (now s + 1 / 10), Interrupt Tester]"
          "s' = s\<lparr>now := now s + 1 / 10, procs := (procs s)(Tester \<mapsto> send_sigint h (now s + 1 / 10))\<rparr>"
          "r = Ok True"
          by (simp_all add: progress_loop.simps [of T f st s] prepend_def bind_def
              interrupt_def return_def)
        with return None t True show ?thesis
          by (intro fire [of h]) simp_all
      next
        case False
        obtain es' s'' r' where rec: "progress_loop T f st (s\<lparr>now := now s + 1 / 10\<rparr>) = (es', s'', r')"
          by (cases "progress_loop T f st (s\<lparr>now := now s + 1 / 10\<rparr>)") auto
        with w assms return None t False
        have "es = [Wait Tester (Some (1 / 10)) None, PerfCounter (now s + 1 / 10),
             Progress (now s + 1 / 10 - st)] @ es'" "s'' = s'" "r' = r"
          by (simp_all add: progress_loop.simps [of T f st s] prepend_def)
        with return None t False rec show ?thesis
          by (intro step [of h es']) simp_all
      qed
    next
      case (Some c)
      with w assms return
      have "es = [Wait Tester (Some (1 / 10)) (Some c)]" "s' = s\<lparr>now := t\<rparr>" "r = Ok False"
        by (simp_all add: progress_loop.simps [of T f st s])
      with return Some show ?thesis
        by (intro exit [of h t c]) simp_all
    qed
  qed
qed

lemma wait_return:
  "procs s p = Some h \<Longrightarrow> wait_until h (now s) tmo = Some (t, x) \<Longrightarrow>
   fault_in f (now s) (Some t) = None \<Longrightarrow>
   wait f p tmo s = ([Wait p tmo x], s\<lparr>now := t\<rparr>, Ok x)"
  by (simp add: wait_def)

lemma progress_loop_induct [consumes 1, case_names fire step exit raise]:
  assumes run: "progress_loop T f st s = (es, s', r)"
    and fire: "\<And>s h. procs s Tester = Some h \<Longrightarrow>
      wait_until h (now s) (Some (1 / 10)) = Some (now s + 1 / 10, None) \<Longrightarrow>
      fault_in f (now s) (Some (now s + 1 / 10)) = None \<Longrightarrow>
      T < now s + 1 / 10 - st \<Longrightarrow>
      P s [Wait Tester (Some (1 / 10)) None, PerfCounter (now s + 1 / 10), Interrupt Tester]
        (s\<lparr>now := now s + 1 / 10,
           procs := (procs s)(Tester \<mapsto> send_sigint h (now s + 1 / 10))\<rparr>) (Ok True)"
    and step: "\<And>s h es' s' r. procs s Tester = Some h \<Longrightarrow>
      wait_until h (now s) (Some (1 / 10)) = Some (now s + 1 / 10, None) \<Longrightarrow>
      fault_in f (now s) (Some (now s + 1 / 10)) = None \<Longrightarrow>
      \<not> T < now s + 1 / 10 - st \<Longrightarrow>
      progress_loop T f st (s\<lparr>now := now s + 1 / 10\<rparr>) = (es', s', r) \<Longrightarrow>
      P (s\<lparr>now := now s + 1 / 10\<rparr>) es' s' r \<Longrightarrow>
      P s ([Wait Tester (Some (1 / 10)) None, PerfCounter (now s + 1 / 10),
            Progress (now s + 1 / 10 - st)] @ es') s' r"
    and exit: "\<And>s h t c. procs s Tester = Some h \<Longrightarrow>
      wait_until h (now s) (Some (1 / 10)) = Some (t, Some c) \<Longrightarrow>
      fault_in f (now s) (Some t) = None \<Longrightarrow>
      P s [Wait Tester (Some (1 / 10)) (Some c)] (s\<lparr>now := t\<rparr>) (Ok False)"
    and raise: "\<And>s s' e. wait f Tester (Some (1 / 10)) s = ([], s', Raise e) \<Longrightarrow>
      P s [] s' (Raise e)"
  shows "P s es s' r"
proof -
  have "progress_loop T' f' st' s = (es, s', r) \<Longrightarrow> T' = T \<Longrightarrow> f' = f \<Longrightarrow> st' = st \<Longrightarrow>
      P s es s' r" for T' f' st'
  proof (induction T' f' st' s arbitrary: es s' r rule: progress_loop.induct)
    case (1 T' f' st' s)
    note eq = "1.prems"(2-4)
    from "1.prems"(1) have run': "progress_loop T f st s = (es, s', r)"
      by (simp add: eq)
    then show ?case
    proof (cases rule: progress_loop_cases)
      case (fire h)
      with assms(2) [of s h] show ?thesis by simp
    next
      case (step h es')
      have w: "wait f' Tester (Some (1 / 10)) s
          = ([Wait Tester (Some (1 / 10)) None], s\<lparr>now := now s + 1 / 10\<rparr>, Ok None)"
        unfolding eq using step(1-3) by (rule wait_return)
      have "\<not> T' < now (s\<lparr>now := now s + 1 / 10\<rparr>) - st'"
        using step(4) by (simp add: eq)
      from "1.IH" [OF w [symmetric] refl refl refl this _ eq] step(5)
      have "P (s\<lparr>now := now s + 1 / 10\<rparr>) es' s' r"
        by (simp add: eq)
      with assms(3) [of s h es' s' r] step show ?thesis by simp
    next
      case (exit h t c)
      with assms(4) [of s h t c] show ?thesis by simp
    next
      case (raise e)
      with assms(5) [of s s' e] show ?thesis by simp
    qed
  qed
  from this [OF run refl refl refl] show ?thesis .
qed

lemma progress_loop_not_Hang:
  assumes "progress_loop T f st s = (es, s', r)"
  shows "r \<noteq> Hang"
  using assms by (induction rule: progress_loop_induct) simp_all

lemma progress_loop_True:
  assumes "progress_loop T f st s = (es, s', r)" and "r = Ok True"
  shows "\<exists>pre h. es = pre @ [Interrupt Tester] \<and> list_all observing pre
      \<and> procs s Tester = Some h \<and> status h (now s') = None \<and> T < now s' - st
      \<and> procs s' Tester = Some (send_sigint h (now s')) \<and> procs s' Server = procs s Server"
  using assms
proof (induction rule: progress_loop_induct)
  case (fire s h)
  from fire(2) have "status h (now s + 1 / 10) = None"
    by (auto dest: wait_until_None)
  with fire show ?case by simp
next
  case (step s h es' s' r)
  from step.IH [OF step.prems] obtain pre h' where
    "es' = pre @ [Interrupt Tester]" "list_all observing pre"
    "procs s Tester = Some h'" "status h' (now s') = None" "T < now s' - st"
    "procs s' Tester = Some (send_sigint h' (now s'))" "procs s' Server = procs s Server"
    by auto
  then show ?case by simp
qed simp_all

lemma progress_loop_False:
  assumes "progress_loop T f st s = (es, s', r)" and "r = Ok False"
  shows "list_all observing es \<and> (\<exists>e \<in> set es. settled e)
      \<and> (\<exists>h e. procs s Tester = Some h \<and> exit_at h = Some e \<and> now s' = max (now s) e)
      \<and> procs s' = procs s"
  using assms
proof (induction rule: progress_loop_induct)
  case (step s h es' s' r)
  from step.IH [OF step.prems] obtain e where
    ih: "list_all observing es'" "\<exists>e \<in> set es'. settled e" "exit_at h = Some e"
    "now s' = max (now s + 1 / 10) e" "procs s' = procs s"
    using step.hyps(1) by auto
  from step.hyps(2) have "status h (now s + 1 / 10) = None"
    by (auto dest: wait_until_None)
  with ih(3) have "now s + 1 / 10 < e"
    by (simp add: status_def split: if_splits)
  with ih(4) have "now s' = max (now s) e"
    by simp
  with ih step.hyps(1) show ?case by auto
next
  case (exit s h t c)
  from exit(2) obtain e where "exit_at h = Some e" "t = max (now s) e"
    by (auto dest: wait_until_Some)
  with exit show ?case by simp
qed simp_all

lemma progress_loop_Raise:
  assumes "progress_loop T f st s = (es, s', r)" and "r = Raise e"
  shows "list_all observing es \<and> procs s' = procs s"
  using assms
proof (induction rule: progress_loop_induct)
  case (raise s s' e')
  then show ?case by (auto elim: wait_cases)
qed simp_all

lemma fault_in_None [simp]: "fault_in None a b = None"
  by (simp add: fault_in_def)

lemma progress_loop_no_fault:
  assumes "progress_loop T f st s = (es, s', r)" and "f = None" and "procs s Tester \<noteq> None"
  shows "\<exists>b. r = Ok b"
  using assms
proof (induction rule: progress_loop_induct)
  case (raise s s' e')
  then show ?case by (auto elim: wait_cases)
qed auto

lemma progress_loop_bound:
  assumes "progress_loop T f st s = (es, s', r)" and "r = Ok True" and "now s - st \<le> T"
  shows "now s' - st \<le> T + 1 / 10"
  using assms by (induction rule: progress_loop_induct) simp_all

lemma progress_loop_fires:
  assumes "progress_loop T f st s = (es, s', r)" and "f = None"
    and "procs s Tester = Some h"
    and "\<forall>e. exit_at h = Some e \<longrightarrow> st + T + 1 / 10 < e"
    and "now s - st \<le> T"
  shows "r = Ok True"
  using assms
proof (induction rule: progress_loop_induct)
  case (exit s h' t c)
  from exit(2) obtain e where "exit_at h' = Some e" "wait_until h' (now s) (Some (1 / 10)) = Some (t, Some c)"
    by (auto dest: wait_until_Some)
  then have "e \<le> now s + 1 / 10"
    by (auto simp: wait_until_def split: if_splits)
  with exit \<open>exit_at h' = Some e\<close> show ?case by auto
next
  case (raise s s' e')
  then show ?case by (auto elim: wait_cases)
qed auto

lemma silent_wait_cases:
  assumes "silent_wait T f s = (es, s', r)"
  obtains (fire) h where "procs s Tester = Some h"
      "wait_until h (now s) (Some T) = Some (now s + T, None)"
      "fault_in f (now s) (Some (now s + T)) = None"
      "es = [Wait Tester (Some T) None, Poll Tester None, Interrupt Tester]"
      "s' = s\<lparr>now := now s + T, procs := (procs s)(Tester \<mapsto> send_sigint h (now s + T))\<rparr>"
      "r = Ok True"
  | (exit) h t c where "procs s Tester = Some h"
      "wait_until h (now s) (Some T) = Some (t, Some c)"
      "fault_in f (now s) (Some t) = None"
      "es = Wait Tester (Some T) (Some c) # (if c = 0 then [] else [Poll Tester (Some c)])"
      "s' = s\<lparr>now := t\<rparr>" "r = Ok False"
  | (raise) e where "wait f Tester (Some T) s = (es, s', Raise e)" "es = []" "r = Raise e"
proof -
  obtain es1 s1 r1 where w: "wait f Tester (Some T) s = (es1, s1, r1)"
    by (cases "wait f Tester (Some T) s") auto
  from w show thesis
  proof (cases rule: wait_cases)
    case unbound
    with w assms have "wait f Tester (Some T) s = (es, s', Raise UnboundLocalError)"
      "es = []" "r = Raise UnboundLocalError"
      by (simp_all add: silent_wait_def bind_def)
    then show ?thesis by (rule raise)
  next
    case (hang h)
    then show ?thesis by (simp add: wait_until_timed)
  next
    case (fault h t e)
    with w assms have "wait f Tester (Some T) s = (es, s', Raise e)"
      "es = []" "r = Raise e"
      by (simp_all add: silent_wait_def bind_def)
    then show ?thesis by (rule raise)
  next
    case (return h t x)
    show ?thesis
    proof (cases x)
      case None
      with return have t: "t = now s + T" and st: "status h (now s + T) = None"
        by (auto dest: wait_until_None)
      with w assms return None
      have "es = [Wait Tester (Some T) None, Poll Tester None, Interrupt Tester]"
        "s' = s\<lparr>now := now s + T, procs := (procs s)(Tester \<mapsto> send_sigint h (now s + T))\<rparr>"
        "r = Ok True"
        by (simp_all add: silent_wait_def bind_def poll_def interrupt_def return_def)
      with return None t show ?thesis
        by (intro fire [of h]) simp_all
    next
      case (Some c)
      with return obtain e where e: "exit_at h = Some e" "t = max (now s) e" "c = returncode h"
        by (auto dest: wait_until_Some)
      then have st: "status h t = Some c"
        by (simp add: status_def)
      with w assms return Some
      have "es = Wait Tester (Some T) (Some c) # (if c = 0 then [] else [Poll Tester (Some c)])"
        "s' = s\<lparr>now := t\<rparr>" "r = Ok False"
        by (auto simp: silent_wait_def bind_def poll_def return_def split: if_splits)
      with return Some show ?thesis
        by (intro exit [of h t c]) simp_all
    qed
  qed
qed

lemma await_tester_not_Hang:
  assumes "await_tester T progress f st s = (es, s', r)"
  shows "r \<noteq> Hang"
proof (cases progress)
  case True
  with assms show ?thesis
    by (auto simp: await_tester_def dest: progress_loop_not_Hang)
next
  case False
  with assms have "silent_wait T f s = (es, s', r)"
    by (simp add: await_tester_def)
  then show ?thesis
    by (cases rule: silent_wait_cases) simp_all
qed

lemma await_tester_True:
  assumes "await_tester T progress f st s = (es, s', Ok True)"
  shows "\<exists>pre h. es = pre @ [Interrupt Tester] \<and> list_all observing pre
      \<and> procs s Tester = Some h \<and> status h (now s') = None
      \<and> procs s' Tester = Some (send_sigint h (now s')) \<and> procs s' Server = procs s Server"
proof (cases progress)
  case True
  with assms have "progress_loop T f st s = (es, s', Ok True)"
    by (simp add: await_tester_def)
  from progress_loop_True [OF this refl] show ?thesis
    by blast
next
  case False
  with assms have "silent_wait T f s = (es, s', Ok True)"
    by (simp add: await_tester_def)
  then show ?thesis
  proof (cases rule: silent_wait_cases)
    case (fire h)
    from fire(2) have "status h (now s + T) = None"
      by (auto dest: wait_until_None)
    with fire show ?thesis
      by (intro exI [of _ "[Wait Tester (Some T) None, Poll Tester None]"] exI [of _ h]) simp
  qed simp_all
qed

lemma await_tester_False:
  assumes "await_tester T progress f st s = (es, s', Ok False)"
  shows "list_all observing es \<and> (\<exists>e \<in> set es. settled e)
      \<and> (\<exists>h e. procs s Tester = Some h \<and> exit_at h = Some e \<and> now s' = max (now s) e)
      \<and> procs s' = procs s"
proof (cases progress)
  case True
  with assms have "progress_loop T f st s = (es, s', Ok False)"
    by (simp add: await_tester_def)
  from progress_loop_False [OF this refl] show ?thesis .
next
  case False
  with assms have "silent_wait T f s = (es, s', Ok False)"
    by (simp add: await_tester_def)
  then show ?thesis
  proof (cases rule: silent_wait_cases)
    case (exit h t c)
    from exit(2) obtain e where "exit_at h = Some e" "t = max (now s) e"
      by (auto dest: wait_until_Some)
    with exit show ?thesis by simp
  qed simp_all
qed

lemma await_tester_Raise:
  assumes "await_tester T progress f st s = (es, s', Raise e)"
  shows "list_all observing es \<and> procs s' = procs s"
proof (cases progress)
  case True
  with assms have "progress_loop T f st s = (es, s', Raise e)"
    by (simp add: await_tester_def)
  from progress_loop_Raise [OF this refl] show ?thesis .
next
  case False
  with assms have "silent_wait T f s = (es, s', Raise e)"
    by (simp add: await_tester_def)
  then show ?thesis
  proof (cases rule: silent_wait_cases)
    case (raise e')
    then show ?thesis by (auto elim: wait_cases)
  qed simp_all
qed

lemma await_tester_no_fault:
  assumes "await_tester T progress None st s = (es, s', r)" and "procs s Tester \<noteq> None"
  shows "\<exists>b. r = Ok b"
proof (cases progress)
  case True
  with assms have "progress_loop T None st s = (es, s', r)"
    by (simp add: await_tester_def)
  from progress_loop_no_fault [OF this refl assms(2)] show ?thesis .
next
  case False
  with assms have "silent_wait T None s = (es, s', r)"
    by (simp add: await_tester_def)
  then show ?thesis
  proof (cases rule: silent_wait_cases)
    case (raise e')
    with assms(2) show ?thesis by (auto elim: wait_cases)
  qed auto
qed

lemma wait_until_mono: "wait_until h t (Some d) = Some (t', x) \<Longrightarrow> 0 \<le> d \<Longrightarrow> t \<le> t'"
  by (auto simp: wait_until_def split: option.splits if_splits)

lemma status_send_sigkill: "status (send_sigkill h t) t \<noteq> None"
  by (auto simp: send_sigkill_def status_def split: option.splits)

lemma teardown_cases:
  assumes "teardown f s = (es, s', r)"
  obtains (no_server) "procs s Server = None" "es = []" "s' = s" "r = Raise UnboundLocalError"
  | (interrupted) h e where "procs s Server = Some h" "es = [Interrupt Server]" "r = Raise e"
      "procs s' = (procs s)(Server \<mapsto> send_sigint h (now s))"
  | (torn_down) h t x where "procs s Server = Some h"
      "wait_until (send_sigint h (now s)) (now s) (Some 1) = Some (t, x)"
      "es = [Interrupt Server, Wait Server (Some 1) x, Kill Server]"
      "s' = s\<lparr>now := t, procs := (procs s)(Server \<mapsto> send_sigkill (send_sigint h (now s)) t)\<rparr>"
      "r = Ok ()"
proof (cases "procs s Server")
  case None
  with assms have "es = []" "s' = s" "r = Raise UnboundLocalError"
    by (auto simp: teardown_def bind_def interrupt_def)
  with None show ?thesis by (rule no_server)
next
  case (Some h)
  let ?s1 = "s\<lparr>procs := (procs s)(Server \<mapsto> send_sigint h (now s))\<rparr>"
  have i: "interrupt Server s = ([Interrupt Server], ?s1, Ok ())"
    using Some by (simp add: interrupt_def)
  obtain es2 s2 r2 where w: "wait f Server (Some 1) ?s1 = (es2, s2, r2)"
    by (cases "wait f Server (Some 1) ?s1") auto
  from w show ?thesis
  proof (cases rule: wait_cases)
    case unbound
    then show ?thesis by simp
  next
    case (hang h')
    then show ?thesis by (simp add: wait_until_timed)
  next
    case (fault h' t e)
    with assms i w have "es = [Interrupt Server]" "r = Raise e"
      "procs s' = (procs s)(Server \<mapsto> send_sigint h (now s))"
      by (auto simp: teardown_def bind_def)
    with Some show ?thesis by (rule interrupted)
  next
    case (return h' t x)
    then have h': "h' = send_sigint h (now s)" by simp
    from assms i w return
    have "es = [Interrupt Server, Wait Server (Some 1) x, Kill Server]"
      "s' = s\<lparr>now := t, procs := (procs s)(Server \<mapsto> send_sigkill (send_sigint h (now s)) t)\<rparr>"
      "r = Ok ()"
      by (auto simp: teardown_def bind_def kill_def)
    with Some return(2) [unfolded h'] show ?thesis
      by (intro torn_down [of h t x]) simp_all
  qed
qed

lemma report_timeout: "report T f True d s = ([Row (Timeout T)], s, Ok ())"
  by (simp add: report_def print_output_def)

lemma fault_in_empty [simp]: "fault_in f a (Some a) = None"
  by (auto simp: fault_in_def split: option.splits)

lemma report_terminated:
  assumes "procs s Tester = Some h" and "exit_at h = Some e" and "e \<le> now s"
  shows "report T f False d s =
    ([Wait Tester None (Some (returncode h)),
      Row (if returncode h \<noteq> 0 then Error else Success d)], s, Ok ())"
proof -
  from assms have "wait_until h (now s) None = Some (now s, Some (returncode h))"
    by (simp add: wait_until_def max_absorb1)
  with assms(1) have "wait f Tester None s = ([Wait Tester None (Some (returncode h))], s, Ok (Some (returncode h)))"
    by (simp add: wait_def)
  then show ?thesis
    by (simp add: report_def bind_def print_output_def)
qed

lemma bind_Ok: "m s = (es1, s1, Ok x) \<Longrightarrow> bind m k s = prepend es1 (k x s1)"
  by (simp add: bind_def prepend_def)

lemma bind_Raise: "m s = (es1, s1, Raise e) \<Longrightarrow> bind m k s = (es1, s1, Raise e)"
  by (simp add: bind_def)

lemma bind_perf_counter: "bind perf_counter k s = prepend [PerfCounter (now s)] (k (now s) s)"
  by (simp add: bind_def perf_counter_def prepend_def)

lemma prepend_tuple: "prepend es (es', s, r) = (es @ es', s, r)"
  by (simp add: prepend_def)

lemma pairing_cases:
  assumes "pairing T progress w s = (es, s', r)"
  obtains (launch_fails) e where "server_launch w = LaunchFails e"
      "es = []" "s' = s" "r = Raise e"
  | (never_ready) sprog where "server_launch w = NeverReady sprog"
      "es = [Start Server]" "r = Hang"
  | (tester_fails) d sprog e where "server_launch w = Ready d sprog" "tester_launch w = Inl e"
      "es = [Start Server, PerfCounter (now s + d)]" "r = Raise e"
      "procs s' = (procs s)(Server \<mapsto> launch sprog (now s))" "now s' = now s + d"
  | (await_raises) d sprog tprog es3 e where
      "server_launch w = Ready d sprog" "tester_launch w = Inr tprog"
      "await_tester T progress (fault w) (now s + d) (launched s d sprog tprog) = (es3, s', Raise e)"
      "es = [Start Server, PerfCounter (now s + d), Start Tester] @ es3" "r = Raise e"
  | (teardown_raises) d sprog tprog es3 s4 timeout es5 e where
      "server_launch w = Ready d sprog" "tester_launch w = Inr tprog"
      "await_tester T progress (fault w) (now s + d) (launched s d sprog tprog) = (es3, s4, Ok timeout)"
      "teardown (fault w) s4 = (es5, s', Raise e)"
      "es = [Start Server, PerfCounter (now s + d), Start Tester] @ es3 @ [PerfCounter (now s4)] @ es5"
      "r = Raise e"
  | (reported) d sprog tprog es3 s4 timeout es5 s5 es6 where
      "server_launch w = Ready d sprog" "tester_launch w = Inr tprog"
      "await_tester T progress (fault w) (now s + d) (launched s d sprog tprog) = (es3, s4, Ok timeout)"
      "teardown (fault w) s4 = (es5, s5, Ok ())"
      "report T (fault w) timeout (now s4 - (now s + d)) s5 = (es6, s', r)"
      "es = [Start Server, PerfCounter (now s + d), Start Tester] @ es3 @ [PerfCounter (now s4)]
            @ es5 @ es6"
proof (cases "server_launch w")
  case (LaunchFails e)
  with assms have "es = []" "s' = s" "r = Raise e"
    by (auto simp: pairing_def bind_def spawn_server_def)
  with LaunchFails show ?thesis by (rule launch_fails)
next
  case (NeverReady sprog)
  with assms have "es = [Start Server]" "r = Hang"
    by (auto simp: pairing_def bind_def spawn_server_def)
  with NeverReady show ?thesis by (rule never_ready)
next
  case (Ready d sprog)
  note srv = this
  show ?thesis
  proof (cases "tester_launch w")
    case (Inl e)
    with assms srv have "es = [Start Server, PerfCounter (now s + d)]" "r = Raise e"
      "procs s' = (procs s)(Server \<mapsto> launch sprog (now s))" "now s' = now s + d"
      by (auto simp: pairing_def bind_def spawn_server_def perf_counter_def spawn_tester_def)
    with srv Inl show ?thesis by (rule tester_fails)
  next
    case (Inr tprog)
    note tst = this
    let ?s3 = "launched s d sprog tprog"
    let ?rest = "\<lambda>timeout. bind perf_counter (\<lambda>t. bind (teardown (fault w)) (\<lambda>_.
        report T (fault w) timeout (t - (now s + d))))"
    have p: "pairing T progress w s = prepend [Start Server, PerfCounter (now s + d), Start Tester]
        (bind (await_tester T progress (fault w) (now s + d)) ?rest ?s3)"
      using srv tst
      by (simp add: pairing_def bind_def spawn_server_def perf_counter_def spawn_tester_def
          launched_def prepend_def split: prod.splits result.splits)
    obtain es3 s4 r3 where a: "await_tester T progress (fault w) (now s + d) ?s3 = (es3, s4, r3)"
      by (cases "await_tester T progress (fault w) (now s + d) ?s3") auto
    show ?thesis
    proof (cases r3)
      case Hang
      with a show ?thesis by (auto dest: await_tester_not_Hang)
    next
      case (Raise e)
      with assms p a have "es = [Start Server, PerfCounter (now s + d), Start Tester] @ es3"
        "r = Raise e" "s4 = s'"
        by (auto simp: bind_Raise [where m = "await_tester T progress (fault w) (now s + d)"]
            prepend_tuple)
      with srv tst a Raise show ?thesis
        by (intro await_raises [of d sprog tprog es3 e]) simp_all
    next
      case (Ok timeout)
      note a = a [unfolded Ok]
      obtain es5 s5 r5 where t: "teardown (fault w) s4 = (es5, s5, r5)"
        by (cases "teardown (fault w) s4") auto
      from assms p have q: "(es, s', r) = prepend [Start Server, PerfCounter (now s + d), Start Tester]
          (prepend es3 (prepend [PerfCounter (now s4)]
            (bind (teardown (fault w)) (\<lambda>_. report T (fault w) timeout (now s4 - (now s + d))) s4)))"
        by (simp add: bind_Ok [where m = "await_tester T progress (fault w) (now s + d)", OF a]
            bind_perf_counter)
      show ?thesis
      proof (cases r5)
        case Hang
        with t show ?thesis by (auto elim: teardown_cases)
      next
        case (Raise e)
        with q t
        have "es = [Start Server, PerfCounter (now s + d), Start Tester] @ es3 @ [PerfCounter (now s4)] @ es5"
          "r = Raise e" "s5 = s'"
          by (auto simp: bind_Raise [where m = "teardown (fault w)"] prepend_tuple)
        with srv tst a t Raise show ?thesis
          by (intro teardown_raises [of d sprog tprog es3 s4 timeout es5 e]) simp_all
      next
        case (Ok u)
        obtain es6 s6 r6 where rp: "report T (fault w) timeout (now s4 - (now s + d)) s5 = (es6, s6, r6)"
          by (cases "report T (fault w) timeout (now s4 - (now s + d)) s5") auto
        with q t Ok
        have "es = [Start Server, PerfCounter (now s + d), Start Tester] @ es3 @ [PerfCounter (now s4)]
            @ es5 @ es6" "s6 = s'" "r6 = r"
          by (auto simp: bind_Ok [where m = "teardown (fault w)"] prepend_tuple)
        with srv tst a t Ok rp show ?thesis
          by (intro reported [of d sprog tprog es3 s4 timeout es5 s5 es6]) simp_all
      qed
    qed
  qed
qed

lemma rows_simps [simp]:
  "rows [] = []"
  "rows (e # es) = (case e of Row out \<Rightarrow> [out] | _ \<Rightarrow> []) @ rows es"
  "rows (es @ es') = rows es @ rows es'"
  by (simp_all add: rows_def)

lemma readings_simps [simp]:
  "readings [] = []"
  "readings (e # es) = (case e of PerfCounter t \<Rightarrow> [t] | _ \<Rightarrow> []) @ readings es"
  "readings (es @ es') = readings es @ readings es'"
  by (simp_all add: readings_def)

lemma waits_simps [simp]:
  "waits p [] = []"
  "waits p (e # es) = (case e of Wait q tmo r \<Rightarrow> if q = p then [r] else [] | _ \<Rightarrow> []) @ waits p es"
  "waits p (es @ es') = waits p es @ waits p es'"
  by (simp_all add: waits_def)

lemma observing_rows: "list_all observing es \<Longrightarrow> rows es = []"
  by (induction es) (auto split: event.splits)

lemma observing_set: "list_all observing es \<Longrightarrow> e \<in> set es \<Longrightarrow> observing e"
  by (simp add: list_all_iff)

lemma observing_no_Interrupt: "list_all observing es \<Longrightarrow> Interrupt p \<notin> set es"
  by (auto dest: observing_set)

lemma teardown_Ok:
  assumes "teardown f s = (es, s', Ok u)"
  shows "\<exists>h x. procs s Server = Some h
      \<and> es = [Interrupt Server, Wait Server (Some 1) x, Kill Server]
      \<and> now s \<le> now s' \<and> procs s' Tester = procs s Tester
      \<and> procs s' Server = Some (send_sigkill (send_sigint h (now s)) (now s'))"
  using assms
proof (cases rule: teardown_cases)
  case (torn_down h t x)
  from torn_down(2) have "now s \<le> t"
    by (rule wait_until_mono) simp
  with torn_down show ?thesis by simp
qed simp_all

lemmas run_defs =
  pairing_def bind_def return_def spawn_server_def spawn_tester_def perf_counter_def
  await_tester_def silent_wait_def teardown_def report_def print_output_def
  wait_def wait_until_def poll_def interrupt_def kill_def status_def send_sigint_def
  send_sigkill_def launch_def fault_in_def initial_def quiet_world_def sample_server_def
  sample_tester_def stubborn_tester_def polite_tester_def exit_status_def running_def

lemma await_tester_trace:
  assumes "await_tester T progress f st s = (es, s', r)"
  shows "\<exists>pre. list_all observing pre
      \<and> es = pre @ (if r = Ok True then [Interrupt Tester] else [])
      \<and> (r = Ok False \<longrightarrow> (\<exists>e \<in> set pre. settled e))"
proof (cases r)
  case (Ok b)
  show ?thesis
  proof (cases b)
    case True
    with assms Ok await_tester_True [of T progress f st s es s'] show ?thesis
      by auto
  next
    case False
    with assms Ok await_tester_False [of T progress f st s es s'] show ?thesis
      by auto
  qed
next
  case (Raise e)
  with assms await_tester_Raise [of T progress f st s es s' e] show ?thesis
    by auto
next
  case Hang
  with assms show ?thesis by (auto dest: await_tester_not_Hang)
qed

lemma teardown_trace:
  assumes "teardown f s = (es, s', r)"
  shows "es = [] \<and> r \<noteq> Ok () \<or> es = [Interrupt Server] \<and> r \<noteq> Ok ()
      \<or> (\<exists>x. es = [Interrupt Server, Wait Server (Some 1) x, Kill Server]) \<and> r = Ok ()"
  using assms by (cases rule: teardown_cases) auto

lemma report_after_await:
  assumes a: "await_tester T progress f st s = (es3, s4, Ok timeout)"
    and t: "teardown f s4 = (es5, s5, Ok u)"
    and r: "report T f timeout dur s5 = (es6, s', r)"
  shows "r = Ok () \<and> s' = s5
    \<and> (if timeout then es6 = [Row (Timeout T)]
        else \<exists>c. es6 = [Wait Tester None (Some c), Row (if c \<noteq> 0 then Error else Success dur)]
            \<and> exit_status s5 Tester = Some c)"
proof (cases timeout)
  case True
  with r show ?thesis by (simp add: report_timeout)
next
  case False
  from teardown_Ok [OF t] have td: "now s4 \<le> now s5" "procs s5 Tester = procs s4 Tester"
    by auto
  from a False have "await_tester T progress f st s = (es3, s4, Ok False)"
    by simp
  from await_tester_False [OF this] obtain h e where
    a: "procs s Tester = Some h" "exit_at h = Some e" "now s4 = max (now s) e" "procs s4 = procs s"
    by auto
  from a td have h: "procs s5 Tester = Some h" and e: "e \<le> now s5"
    by simp_all
  from report_terminated [OF h a(2) e, of T f dur] r False
  have "es6 = [Wait Tester None (Some (returncode h)),
      Row (if returncode h \<noteq> 0 then Error else Success dur)]" "s' = s5" "r = Ok ()"
    by simp_all
  moreover from h a(2) e have "exit_status s5 Tester = Some (returncode h)"
    by (simp add: exit_status_def status_def)
  ultimately show ?thesis using False by simp
qed

lemma pairing_shape:
  assumes "pairing T progress w s = (es, s', r)"
  shows "\<exists>pre t1 t2 mid td x c out. list_all observing pre \<and>
     (es = [] \<and> (\<exists>e. r = Raise e)
    \<or> es = [Start Server] \<and> r = Hang
    \<or> es = [Start Server, PerfCounter t1] \<and> (\<exists>e. r = Raise e)
    \<or> es = [Start Server, PerfCounter t1, Start Tester] @ pre \<and> (\<exists>e. r = Raise e)
    \<or> es = [Start Server, PerfCounter t1, Start Tester] @ pre @ mid @ [PerfCounter t2] @ td
          \<and> (\<exists>e. r = Raise e)
          \<and> (mid = [Interrupt Tester] \<or> mid = [] \<and> (\<exists>e \<in> set pre. settled e))
          \<and> (td = [] \<or> td = [Interrupt Server])
    \<or> es = [Start Server, PerfCounter t1, Start Tester] @ pre
          @ [Interrupt Tester, PerfCounter t2, Interrupt Server, Wait Server (Some 1) x,
             Kill Server, Row (Timeout T)] \<and> r = Ok ()
    \<or> es = [Start Server, PerfCounter t1, Start Tester] @ pre
          @ [PerfCounter t2, Interrupt Server, Wait Server (Some 1) x, Kill Server,
             Wait Tester None (Some c), Row out] \<and> r = Ok () \<and> (\<exists>e \<in> set pre. settled e))"
  using assms
proof (cases rule: pairing_cases)
  case (launch_fails e)
  then show ?thesis by (intro exI [of _ "[]"]) simp
next
  case (never_ready sprog)
  then show ?thesis by (intro exI [of _ "[]"]) simp
next
  case (tester_fails d sprog e)
  then show ?thesis by (rule_tac exI [of _ "[]"], rule_tac exI [of _ "now s + d"]) simp
next
  case (await_raises d sprog tprog es3 e)
  from await_tester_trace [OF await_raises(3)] have "list_all observing es3"
    by auto
  with await_raises show ?thesis
    by (rule_tac exI [of _ es3], rule_tac exI [of _ "now s + d"]) simp
next
  case (teardown_raises d sprog tprog es3 s4 timeout es5 e)
  from await_tester_trace [OF teardown_raises(3)] obtain pre where
    pre: "list_all observing pre" "es3 = pre @ (if timeout then [Interrupt Tester] else [])"
    "\<not> timeout \<longrightarrow> (\<exists>e \<in> set pre. settled e)"
    by auto
  from teardown_trace [OF teardown_raises(4)] have td: "es5 = [] \<or> es5 = [Interrupt Server]"
    by auto
  have "es = [Start Server, PerfCounter (now s + d), Start Tester] @ pre
      @ (if timeout then [Interrupt Tester] else []) @ [PerfCounter (now s4)] @ es5"
    using teardown_raises(5) pre(2) by simp
  with pre td teardown_raises(6) show ?thesis
    by (rule_tac exI [of _ pre], rule_tac exI [of _ "now s + d"], rule_tac exI [of _ "now s4"],
        rule_tac exI [of _ "if timeout then [Interrupt Tester] else []"], rule_tac exI [of _ es5])
      auto
next
  case (reported d sprog tprog es3 s4 timeout es5 s5 es6)
  from await_tester_trace [OF reported(3)] obtain pre where
    pre: "list_all observing pre" "es3 = pre @ (if timeout then [Interrupt Tester] else [])"
    "\<not> timeout \<longrightarrow> (\<exists>e \<in> set pre. settled e)"
    by auto
  from teardown_trace [OF reported(4)] obtain x where
    td: "es5 = [Interrupt Server, Wait Server (Some 1) x, Kill Server]"
    by auto
  note ra = report_after_await [OF reported(3,4,5)]
  show ?thesis
  proof (cases timeout)
    case True
    with ra pre td reported(6) show ?thesis
      by (rule_tac exI [of _ pre], rule_tac exI [of _ "now s + d"], rule_tac exI [of _ "now s4"],
          rule_tac exI [of _ "[]"], rule_tac exI [of _ "[]"], rule_tac exI [of _ x]) simp
  next
    case False
    with ra obtain c where
      "es6 = [Wait Tester None (Some c),
        Row (if c \<noteq> 0 then Error else Success (now s4 - (now s + d)))]" "r = Ok ()"
      by auto
    with False pre td reported(6) show ?thesis
      by (rule_tac exI [of _ pre], rule_tac exI [of _ "now s + d"], rule_tac exI [of _ "now s4"],
          rule_tac exI [of _ "[]"], rule_tac exI [of _ "[]"],
          rule_tac exI [of _ x], rule_tac exI [of _ c],
          rule_tac exI [of _ "if c \<noteq> 0 then Error else Success (now s4 - (now s + d))"])
        simp
  qed
qed



lemma launched_simps [simp]:
  "now (launched s d sprog tprog) = now s + d"
  "procs (launched s d sprog tprog) Tester = Some (launch tprog (now s + d))"
  "procs (launched s d sprog tprog) Server = Some (launch sprog (now s))"
  by (simp_all add: launched_def)

lemma exit_at_launch:
  "exit_at (launch prog t0) = Some e \<Longrightarrow> \<exists>r. run_time prog = Some r \<and> e = t0 + r"
  by (auto simp: launch_def)

lemma pairing_Ok_shape:
  assumes "pairing T progress w s = (es, s', Ok u)"
  shows "\<exists>pre t1 t2 x c out. list_all observing pre \<and>
     (es = [Start Server, PerfCounter t1, Start Tester] @ pre
          @ [Interrupt Tester, PerfCounter t2, Interrupt Server, Wait Server (Some 1) x,
             Kill Server, Row (Timeout T)]
    \<or> es = [Start Server, PerfCounter t1, Start Tester] @ pre
          @ [PerfCounter t2, Interrupt Server, Wait Server (Some 1) x, Kill Server,
             Wait Tester None (Some c), Row out])"
proof -
  from pairing_shape [OF assms] obtain pre t1 t2 mid td x c out where
    "list_all observing pre" and
    "es = [Start Server, PerfCounter t1, Start Tester] @ pre
          @ [Interrupt Tester, PerfCounter t2, Interrupt Server, Wait Server (Some 1) x,
             Kill Server, Row (Timeout T)]
    \<or> es = [Start Server, PerfCounter t1, Start Tester] @ pre
          @ [PerfCounter t2, Interrupt Server, Wait Server (Some 1) x, Kill Server,
             Wait Tester None (Some c), Row out]"
    by (elim exE conjE) auto
  then show ?thesis by blast
qed

lemma untimed_waits_simps [simp]:
  "untimed_waits p [] = []"
  "untimed_waits p (e # es) =
     (case e of Wait q tmo r \<Rightarrow> if q = p \<and> tmo = None then [r] else [] | _ \<Rightarrow> [])
     @ untimed_waits p es"
  "untimed_waits p (es @ es') = untimed_waits p es @ untimed_waits p es'"
  by (simp_all add: untimed_waits_def)

lemma observing_untimed_waits: "list_all observing es \<Longrightarrow> untimed_waits p es = []"
  by (induction es) (auto split: event.splits)

lemma observing_no_Kill: "list_all observing es \<Longrightarrow> Kill p \<notin> set es"
  by (auto dest: observing_set)

lemma teardown_no_fault:
  assumes "teardown None s = (es, s', r)" and "procs s Server \<noteq> None"
  shows "r = Ok ()"
proof -
  from assms(2) obtain h where h: "procs s Server = Some h" by auto
  let ?s1 = "s\<lparr>procs := (procs s)(Server \<mapsto> send_sigint h (now s))\<rparr>"
  obtain t x where wu: "wait_until (send_sigint h (now s)) (now s) (Some 1) = Some (t, x)"
    using wait_until_timed [of "send_sigint h (now s)" "now s" 1]
    by (cases "wait_until (send_sigint h (now s)) (now s) (Some 1)") auto
  have "wait None Server (Some 1) ?s1 = ([Wait Server (Some 1) x], ?s1\<lparr>now := t\<rparr>, Ok x)"
    using h wu by (simp add: wait_def)
  with assms(1) h show ?thesis
    by (auto simp: teardown_def bind_def interrupt_def kill_def)
qed

lemma pairing_quiet_Ok:
  assumes run: "pairing T progress w s = (es, s', r)"
    and srv: "server_launch w = Ready d sprog" and tst: "tester_launch w = Inr tprog"
    and f: "fault w = None"
  shows "r = Ok ()"
  using run
proof (cases rule: pairing_cases)
  case (await_raises d' sprog' tprog' es3 e)
  with f await_tester_no_fault [of T progress "now s + d'" "launched s d' sprog' tprog'" es3 s' "Raise e"]
  show ?thesis by simp
next
  case (teardown_raises d' sprog' tprog' es3 s4 timeout es5 e)
  have "procs s4 Server \<noteq> None"
  proof (cases timeout)
    case True
    with teardown_raises(3) await_tester_True [of T progress "fault w" "now s + d'"
        "launched s d' sprog' tprog'" es3 s4]
    show ?thesis by auto
  next
    case False
    with teardown_raises(3) await_tester_False [of T progress "fault w" "now s + d'"
        "launched s d' sprog' tprog'" es3 s4]
    show ?thesis by auto
  qed
  with teardown_raises(4) f teardown_no_fault [of s4 es5 s' "Raise e"] show ?thesis
    by simp
next
  case (reported d' sprog' tprog' es3 s4 timeout es5 s5 es6)
  from report_after_await [OF reported(3,4,5)] show ?thesis by simp
qed (use srv tst in simp_all)





lemma silent_wait_fires:
  assumes "silent_wait T None s = (es, s', r)" and "procs s Tester = Some h"
    and "\<forall>e. exit_at h = Some e \<longrightarrow> now s + T < e"
  shows "r = Ok True \<and> now s' = now s + T"
  using assms(1)
proof (cases rule: silent_wait_cases)
  case (exit h' t c)
  from exit(2) obtain e where "exit_at h' = Some e" "e \<le> now s + T"
    by (auto simp: wait_until_def split: option.splits if_splits)
  with exit(1) assms(2,3) show ?thesis by auto
next
  case (raise e)
  with assms(2) show ?thesis by (auto elim: wait_cases)
qed simp_all

lemma await_tester_fires:
  assumes run: "await_tester T progress None st s = (es, s', r)"
    and h: "procs s Tester = Some h" and st: "now s = st" and T: "0 \<le> T"
    and long: "\<forall>e. exit_at h = Some e \<longrightarrow> st + (if progress then T + 1 / 10 else T) < e"
  shows "r = Ok True
    \<and> (if progress then T < now s' - st \<and> now s' - st \<le> T + 1 / 10 else now s' - st = T)"
proof (cases progress)
  case True
  with run have l: "progress_loop T None st s = (es, s', r)"
    by (simp add: await_tester_def)
  from long True have "\<forall>e. exit_at h = Some e \<longrightarrow> st + T + 1 / 10 < e"
    by (simp add: add.assoc)
  from progress_loop_fires [OF l refl h this] st T have r: "r = Ok True"
    by simp
  from progress_loop_True [OF l r] have "T < now s' - st"
    by auto
  moreover from progress_loop_bound [OF l r] st T have "now s' - st \<le> T + 1 / 10"
    by simp
  ultimately show ?thesis using r True by simp
next
  case False
  with run have l: "silent_wait T None s = (es, s', r)"
    by (simp add: await_tester_def)
  from long False st have "\<forall>e. exit_at h = Some e \<longrightarrow> now s + T < e"
    by simp
  from silent_wait_fires [OF l h this] st False show ?thesis
    by simp
qed

lemma progress_loop_late_exit:
  assumes h: "procs s Tester = Some h" and e: "exit_at h = Some e"
    and grid: "now s = st + of_nat k / 10" and km: "k < m"
    and le: "e \<le> st + of_nat m / 10" and T: "of_nat (m - 1) / 10 \<le> T"
  shows "\<exists>es. progress_loop T None st s = (es, s\<lparr>now := max (now s) e\<rparr>, Ok False)
    \<and> list_all observing es"
  using h grid km
proof (induction "m - k" arbitrary: k s)
  case 0
  then show ?case by simp
next
  case (Suc n)
  show ?case
  proof (cases "e \<le> now s + 1 / 10")
    case True
    with e have "wait_until h (now s) (Some (1 / 10)) = Some (max (now s) e, Some (returncode h))"
      by (simp add: wait_until_def)
    with Suc.prems(1)
    have "wait None Tester (Some (1 / 10)) s
        = ([Wait Tester (Some (1 / 10)) (Some (returncode h))], s\<lparr>now := max (now s) e\<rparr>,
           Ok (Some (returncode h)))"
      by (simp add: wait_def)
    then show ?thesis
      by (simp add: progress_loop.simps [of T None st s])
  next
    case False
    let ?s1 = "s\<lparr>now := now s + 1 / 10\<rparr>"
    from False e have "wait_until h (now s) (Some (1 / 10)) = Some (now s + 1 / 10, None)"
      by (simp add: wait_until_def)
    with Suc.prems(1)
    have w: "wait None Tester (Some (1 / 10)) s = ([Wait Tester (Some (1 / 10)) None], ?s1, Ok None)"
      by (simp add: wait_def)
    have g1: "now ?s1 = st + of_nat (Suc k) / 10"
      using Suc.prems(2) by (simp add: field_simps)
    from False le Suc.prems(2) have "st + of_nat (Suc k) / 10 < st + of_nat m / (10::rat)"
      by (simp add: field_simps)
    then have "(of_nat (Suc k) :: rat) < of_nat m"
      by simp
    then have k1: "Suc k < m"
      by (simp only: of_nat_less_iff)
    then have "Suc k \<le> m - 1"
      by simp
    then have "(of_nat (Suc k) :: rat) \<le> of_nat (m - 1)"
      by (simp only: of_nat_le_iff)
    then have "(of_nat (Suc k) :: rat) / 10 \<le> of_nat (m - 1) / 10"
      by simp
    with T have nt: "\<not> T < now ?s1 - st"
      unfolding g1 by simp
    from Suc.hyps(2) have n: "n = m - Suc k"
      by simp
    from Suc.hyps(1) [OF n _ g1 k1] Suc.prems(1) obtain es' where
      ih: "progress_loop T None st ?s1 = (es', ?s1\<lparr>now := max (now ?s1) e\<rparr>, Ok False)"
      "list_all observing es'"
      by auto
    from False have "max (now ?s1) e = max (now s) e"
      by simp
    with ih(1) have "progress_loop T None st ?s1 = (es', s\<lparr>now := max (now s) e\<rparr>, Ok False)"
      by simp
    with w nt ih(2) show ?thesis
      by (simp add: progress_loop.simps [of T None st s] prepend_def)
  qed
qed
















section \<open>Properties of the readiness predicate and the generators\<close>

lemma str_NUM_TESTS: "str NUM_TESTS = ''100''"
  by (simp add: str_def NUM_TESTS_def digit_char_def)

lemma str_NUM_REQUESTS: "str NUM_REQUESTS = ''50''"
  by (simp add: str_def NUM_REQUESTS_def digit_char_def)

text \<open>
  Claim C9. The tester generators write \<^verbatim>\<open>NUM_TESTS\<close> and \<^verbatim>\<open>NUM_REQUESTS\<close> into the very
  dict the caller passed (the contents behind the caller's reference change, whatever
  they held under those keys before), every other dict of the store is left alone, and
  the reference handed on to the subtask is the caller's own, not that of a copy.
\<close>

theorem tester_generators_mutate_in_place:
  "fst (pytest_tester env h) env = (h env)(''NUM_TESTS'' \<mapsto> ''100'', ''NUM_REQUESTS'' \<mapsto> ''50'')
   \<and> fst (jest_tester env h) env = (h env)(''NUM_TESTS'' \<mapsto> ''100'', ''NUM_REQUESTS'' \<mapsto> ''50'')
   \<and> (\<forall>r. r \<noteq> env \<longrightarrow> fst (pytest_tester env h) r = h r \<and> fst (jest_tester env h) r = h r)
   \<and> env_ref (snd (pytest_tester env h)) = env
   \<and> env_ref (snd (jest_tester env h)) = env"
  by (simp add: pytest_tester_def jest_tester_def dict_update_def Let_def
      str_NUM_TESTS str_NUM_REQUESTS)

theorem tester_generators_mutate_in_place_witness:
  "fst (pytest_tester 0 ((\<lambda>_. Map.empty)(0 := [''NUM_TESTS'' \<mapsto> ''7'', ''REAL_REQUEST'' \<mapsto> ''TRUE'']))) 0
     = [''NUM_TESTS'' \<mapsto> ''100'', ''REAL_REQUEST'' \<mapsto> ''TRUE'', ''NUM_REQUESTS'' \<mapsto> ''50'']
   \<and> (1::nat) \<noteq> 0
   \<and> fst (jest_tester 0 ((\<lambda>_. Map.empty)(0 := [''NUM_TESTS'' \<mapsto> ''7'', ''REAL_REQUEST'' \<mapsto> ''TRUE'']))) 1
     = Map.empty"
proof -
  let ?h = "(\<lambda>_. Map.empty)(0 := [''NUM_TESTS'' \<mapsto> ''7'', ''REAL_REQUEST'' \<mapsto> ''TRUE''])
            :: store"
  note t = tester_generators_mutate_in_place [of 0 ?h]
  have a: "fst (pytest_tester 0 ?h) 0
      = [''NUM_TESTS'' \<mapsto> ''100'', ''REAL_REQUEST'' \<mapsto> ''TRUE'', ''NUM_REQUESTS'' \<mapsto> ''50'']"
    using t by (auto simp: fun_eq_iff)
  have b: "fst (jest_tester 0 ?h) 1 = Map.empty"
    using t by simp
  show ?thesis using a b by simp
qed

text \<open>
  Claim C10. \<^verbatim>\<open>server_is_up\<close> returns False exactly when the GET raises a
  \<^verbatim>\<open>ConnectionError\<close> (an instance of the class or of a subclass), returns True exactly
  when the GET returns a response, whatever its status code, and lets every other
  exception out unchanged.
\<close>

theorem server_is_up_cases:
  "(server_is_up r = Inr False) = (\<exists>e. r = Raises e \<and> is_ConnectionError e)
   \<and> (server_is_up r = Inr True) = (\<exists>status. r = Response status)
   \<and> (server_is_up r = Inl e) = (r = Raises e \<and> \<not> is_ConnectionError e)"
  by (cases r) auto

theorem server_is_up_cases_witness:
  "server_is_up (Raises ConnectionError) = Inr False
   \<and> server_is_up (Response 500) = Inr True
   \<and> server_is_up (Raises ReadTimeout) = Inl ReadTimeout"
  using server_is_up_cases [of "Raises ConnectionError" ReadTimeout]
    server_is_up_cases [of "Response 500" ReadTimeout]
    server_is_up_cases [of "Raises ReadTimeout" ReadTimeout]
  by simp

section \<open>The outcome of a pairing\<close>

text \<open>
  Claim C1. A pairing that completes prints exactly one row, decided in this order: if
  the tester was interrupted for a timeout the row is \<open>Timeout T\<close>; otherwise, if the
  exit status of the tester is not zero the row is \<open>Error\<close>; otherwise it is
  \<open>Success\<close> with the duration, the last clock reading minus the first. When there
  was no timeout, the exit status is the one that the last wait on the tester returned.
\<close>

theorem pairing_outcome:
  assumes "pairing T progress w s = (es, s', Ok u)"
  shows "rows es =
      [if Interrupt Tester \<in> set es then Timeout T
       else if exit_status s' Tester \<noteq> Some 0 then Error
       else Success (last (readings es) - hd (readings es))]
    \<and> (Interrupt Tester \<notin> set es \<longrightarrow>
         waits Tester es \<noteq> [] \<and> last (waits Tester es) = exit_status s' Tester)"
  using assms
proof (cases rule: pairing_cases)
  case (reported d sprog tprog es3 s4 timeout es5 s5 es6)
  from teardown_Ok [OF reported(4)] obtain hs x where
    td: "es5 = [Interrupt Server, Wait Server (Some 1) x, Kill Server]"
    "now s4 \<le> now s5" "procs s5 Tester = procs s4 Tester"
    by auto
  show ?thesis
  proof (cases timeout)
    case True
    from reported(3) True
    have "await_tester T progress (fault w) (now s + d) (launched s d sprog tprog) = (es3, s4, Ok True)"
      by simp
    from await_tester_True [OF this] obtain pre where
      "es3 = pre @ [Interrupt Tester]" "list_all observing pre"
      by auto
    moreover from reported(5) True have "es6 = [Row (Timeout T)]"
      by (simp add: report_timeout)
    ultimately show ?thesis
      using reported(6) td(1) by (simp add: observing_rows)
  next
    case False
    from reported(3) False
    have "await_tester T progress (fault w) (now s + d) (launched s d sprog tprog) = (es3, s4, Ok False)"
      by simp
    from await_tester_False [OF this] obtain h e where
      a: "list_all observing es3" "procs (launched s d sprog tprog) Tester = Some h"
      "exit_at h = Some e" "now s4 = max (now (launched s d sprog tprog)) e"
      "procs s4 = procs (launched s d sprog tprog)"
      by auto
    from a td have h: "procs s5 Tester = Some h" and e: "e \<le> now s5"
      by simp_all
    from report_terminated [OF h a(3) e, of T "fault w" "now s4 - (now s + d)"] reported(5) False
    have r: "es6 = [Wait Tester None (Some (returncode h)),
        Row (if returncode h \<noteq> 0 then Error else Success (now s4 - (now s + d)))]" "s' = s5"
      by simp_all
    from h a(3) e r(2) have st: "exit_status s' Tester = Some (returncode h)"
      by (simp add: exit_status_def status_def)
    from a(1) have ni: "Interrupt Tester \<notin> set es3"
      by (rule observing_no_Interrupt)
    have rd: "readings es = (now s + d) # readings es3 @ [now s4]"
      using reported(6) td(1) r(1) by simp
    from reported(6) td(1) r(1) ni st a(1) rd show ?thesis
      by (simp add: observing_rows)
  qed
qed simp_all

theorem pairing_outcome_witness:
  "snd (snd (pairing 5 False (quiet_world 2 (sample_tester 1 0)) (initial 0))) = Ok ()
   \<and> rows (fst (pairing 5 False (quiet_world 2 (sample_tester 1 0)) (initial 0))) = [Success 1]
   \<and> snd (snd (pairing 5 False (quiet_world 2 (sample_tester 1 3)) (initial 0))) = Ok ()
   \<and> rows (fst (pairing 5 False (quiet_world 2 (sample_tester 1 3)) (initial 0))) = [Error]
   \<and> snd (snd (pairing 5 False (quiet_world 2 (sample_tester 7 0)) (initial 0))) = Ok ()
   \<and> rows (fst (pairing 5 False (quiet_world 2 (sample_tester 7 0)) (initial 0))) = [Timeout 5]"
proof -
  let ?a = "pairing 5 False (quiet_world 2 (sample_tester 1 0)) (initial 0)"
  let ?b = "pairing 5 False (quiet_world 2 (sample_tester 1 3)) (initial 0)"
  let ?c = "pairing 5 False (quiet_world 2 (sample_tester 7 0)) (initial 0)"
  have a: "?a = (fst ?a, fst (snd ?a), Ok ())" and b: "?b = (fst ?b, fst (snd ?b), Ok ())"
    and c: "?c = (fst ?c, fst (snd ?c), Ok ())"
    by (simp_all add: run_defs)
  show ?thesis
    using pairing_outcome [OF a] pairing_outcome [OF b] pairing_outcome [OF c]
    by (simp add: run_defs)
qed

section \<open>The order of operations\<close>



section \<open>The duration\<close>

text \<open>
  Claim C7. In a pairing that completes, the first clock reading is taken after the
  server generator has returned (the clock then reads the time of the call plus the
  readiness wait \<open>d\<close>) and before the tester is started; a reported duration is the
  last reading minus that first reading. It is the run time of the tester itself, so the
  readiness wait of the server is not part of it.
\<close>

theorem duration_excludes_startup:
  assumes "pairing T progress w s = (es, s', Ok u)"
  shows "\<exists>d sprog tprog rest. server_launch w = Ready d sprog \<and> tester_launch w = Inr tprog
    \<and> es = Start Server # PerfCounter (now s + d) # Start Tester # rest
    \<and> (\<forall>dur. rows es = [Success dur] \<longrightarrow>
         dur = last (readings es) - (now s + d)
         \<and> (\<exists>r. run_time tprog = Some r \<and> dur = max 0 r))"
  using assms
proof (cases rule: pairing_cases)
  case (reported d sprog tprog es3 s4 timeout es5 s5 es6)
  from await_tester_trace [OF reported(3)] obtain pre where
    pre: "list_all observing pre" "es3 = pre @ (if timeout then [Interrupt Tester] else [])"
    by auto
  from teardown_trace [OF reported(4)] obtain x where
    td: "es5 = [Interrupt Server, Wait Server (Some 1) x, Kill Server]"
    by auto
  note ra = report_after_await [OF reported(3,4,5)]
  have es: "es = Start Server # PerfCounter (now s + d) # Start Tester
      # (es3 @ [PerfCounter (now s4)] @ es5 @ es6)"
    using reported(6) by simp
  show ?thesis
  proof (cases timeout)
    case True
    with ra pre td es have "rows es = [Timeout T]"
      by (simp add: observing_rows)
    with reported(1,2) es show ?thesis by simp
  next
    case False
    with ra obtain c where
      es6: "es6 = [Wait Tester None (Some c),
        Row (if c \<noteq> 0 then Error else Success (now s4 - (now s + d)))]"
      by auto
    from False pre td es es6
    have rows: "rows es = [if c \<noteq> 0 then Error else Success (now s4 - (now s + d))]"
      and rd: "last (readings es) = now s4"
      by (simp_all add: observing_rows)
    from reported(3) False
    have "await_tester T progress (fault w) (now s + d) (launched s d sprog tprog) = (es3, s4, Ok False)"
      by simp
    from await_tester_False [OF this] obtain e where
      e: "exit_at (launch tprog (now s + d)) = Some e" "now s4 = max (now s + d) e"
      by auto
    from exit_at_launch [OF e(1)] obtain r where r: "run_time tprog = Some r" "e = now s + d + r"
      by auto
    with e(2) have "now s4 - (now s + d) = max 0 r"
      by (simp add: max_def)
    with rows rd r(1) reported(1,2) es show ?thesis
      by (auto split: if_splits)
  qed
qed simp_all

theorem duration_excludes_startup_witness:
  "rows (fst (pairing 5 False (quiet_world 2 (sample_tester 1 0)) (initial 0))) = [Success 1]
   \<and> rows (fst (pairing 5 False (quiet_world 10 (sample_tester 1 0)) (initial 0))) = [Success 1]
   \<and> readings (fst (pairing 5 False (quiet_world 10 (sample_tester 1 0)) (initial 0))) = [10, 11]
   \<and> run_time (sample_tester 1 0) = Some 1"
proof -
  let ?a = "pairing 5 False (quiet_world 2 (sample_tester 1 0)) (initial 0)"
  let ?b = "pairing 5 False (quiet_world 10 (sample_tester 1 0)) (initial 0)"
  have a: "?a = (fst ?a, fst (snd ?a), Ok ())" and b: "?b = (fst ?b, fst (snd ?b), Ok ())"
    by (simp_all add: run_defs)
  show ?thesis
    using duration_excludes_startup [OF a] duration_excludes_startup [OF b]
    by (simp add: run_defs)
qed

section \<open>The tester after a timeout\<close>

text \<open>
  Claim C5, as the code has it. The wait without a timeout on the tester is issued
  exactly in the pairings that were not marked as timed out. In a pairing in which the
  timeout is detected and the tester is interrupted, nothing more is done with the
  tester handle: what follows the interrupt is the clock reading, the teardown of the
  server and the \<open>Timeout\<close> row. Without a timeout the trace ends with the wait
  without a timeout on the tester and the row.
\<close>

theorem untimed_wait_only_without_timeout:
  assumes "pairing T progress w s = (es, s', Ok u)"
  shows "(Interrupt Tester \<in> set es) = (untimed_waits Tester es = [])
    \<and> (Interrupt Tester \<in> set es \<longrightarrow>
       (\<exists>pre t x. list_all observing pre
          \<and> es = [Start Server, PerfCounter (hd (readings es)), Start Tester] @ pre
              @ [Interrupt Tester, PerfCounter t, Interrupt Server, Wait Server (Some 1) x,
                 Kill Server, Row (Timeout T)]))
    \<and> (Interrupt Tester \<notin> set es \<longrightarrow>
       (\<exists>pre c out. es = pre @ [Wait Tester None (Some c), Row out]))"
proof -
  from pairing_Ok_shape [OF assms] obtain pre t1 t2 x c out where
    pre: "list_all observing pre" and
    shape: "es = [Start Server, PerfCounter t1, Start Tester] @ pre
          @ [Interrupt Tester, PerfCounter t2, Interrupt Server, Wait Server (Some 1) x,
             Kill Server, Row (Timeout T)]
    \<or> es = [Start Server, PerfCounter t1, Start Tester] @ pre
          @ [PerfCounter t2, Interrupt Server, Wait Server (Some 1) x, Kill Server,
             Wait Tester None (Some c), Row out]"
    by (elim exE conjE) (rule that)
  from shape show ?thesis
  proof
    assume es: "es = [Start Server, PerfCounter t1, Start Tester] @ pre
          @ [Interrupt Tester, PerfCounter t2, Interrupt Server, Wait Server (Some 1) x,
             Kill Server, Row (Timeout T)]"
    then have "hd (readings es) = t1" by simp
    with es pre show ?thesis by (auto simp: observing_untimed_waits)
  next
    assume es: "es = [Start Server, PerfCounter t1, Start Tester] @ pre
          @ [PerfCounter t2, Interrupt Server, Wait Server (Some 1) x, Kill Server,
             Wait Tester None (Some c), Row out]"
    from pre have "Interrupt Tester \<notin> set pre"
      by (rule observing_no_Interrupt)
    with es have "Interrupt Tester \<notin> set es" by simp
    moreover from es
    have "es = ([Start Server, PerfCounter t1, Start Tester] @ pre
          @ [PerfCounter t2, Interrupt Server, Wait Server (Some 1) x, Kill Server])
          @ [Wait Tester None (Some c), Row out]"
      by simp
    moreover from es pre have "untimed_waits Tester es \<noteq> []"
      by (simp add: observing_untimed_waits)
    ultimately show ?thesis by blast
  qed
qed

theorem untimed_wait_only_without_timeout_witness:
  "Interrupt Tester \<in> set (fst (pairing 5 False (quiet_world 2 polite_tester) (initial 0)))
   \<and> untimed_waits Tester (fst (pairing 5 False (quiet_world 2 polite_tester) (initial 0))) = []
   \<and> Interrupt Tester \<notin> set (fst (pairing 5 False (quiet_world 2 (sample_tester 1 0)) (initial 0)))
   \<and> untimed_waits Tester (fst (pairing 5 False (quiet_world 2 (sample_tester 1 0)) (initial 0)))
       = [Some 0]"
proof -
  let ?a = "pairing 5 False (quiet_world 2 polite_tester) (initial 0)"
  let ?b = "pairing 5 False (quiet_world 2 (sample_tester 1 0)) (initial 0)"
  have a: "?a = (fst ?a, fst (snd ?a), Ok ())" and b: "?b = (fst ?b, fst (snd ?b), Ok ())"
    by (simp_all add: run_defs)
  show ?thesis
    using untimed_wait_only_without_timeout [OF a] untimed_wait_only_without_timeout [OF b]
    by (simp add: run_defs)
qed

theorem untimed_wait_counterexample:
  "snd (snd (pairing 5 False (quiet_world 2 polite_tester) (initial 0))) = Ok ()
   \<and> fst (pairing 5 False (quiet_world 2 polite_tester) (initial 0)) =
     [Start Server, PerfCounter 2, Start Tester, Wait Tester (Some 5) None, Poll Tester None,
      Interrupt Tester, PerfCounter 7, Interrupt Server, Wait Server (Some 1) (Some 0),
      Kill Server, Row (Timeout 5)]
   \<and> untimed_waits Tester (fst (pairing 5 False (quiet_world 2 polite_tester) (initial 0))) = []"
  by (simp add: run_defs)

section \<open>What is left running\<close>

text \<open>
  Claim C2, as the code has it. When a pairing completes, the server is not running: it
  was interrupted, waited on for at most a second, and killed. When the pairing did not
  time out, the tester is not running either. No kill is ever sent to the tester: after a
  timeout it has been interrupted and nothing else.
\<close>

theorem teardown_leaves_server_stopped:
  assumes "pairing T progress w s = (es, s', Ok u)"
  shows "\<not> running s' Server
    \<and> (Interrupt Tester \<notin> set es \<longrightarrow> \<not> running s' Tester)
    \<and> Kill Tester \<notin> set es"
  using assms
proof (cases rule: pairing_cases)
  case (reported d sprog tprog es3 s4 timeout es5 s5 es6)
  from teardown_Ok [OF reported(4)] obtain h where
    "procs s5 Server = Some (send_sigkill (send_sigint h (now s4)) (now s5))"
    by auto
  then have srv: "\<not> running s5 Server"
    by (simp add: running_def status_send_sigkill)
  note ra = report_after_await [OF reported(3,4,5)]
  from await_tester_trace [OF reported(3)] obtain pre where
    pre: "list_all observing pre" "es3 = pre @ (if timeout then [Interrupt Tester] else [])"
    by auto
  from teardown_trace [OF reported(4)] obtain x where
    td: "es5 = [Interrupt Server, Wait Server (Some 1) x, Kill Server]"
    by auto
  have nk: "Kill Tester \<notin> set es"
    using reported(6) pre td ra by (auto dest: observing_no_Kill split: if_splits)
  have "\<not> running s' Tester" if "Interrupt Tester \<notin> set es"
  proof -
    from that reported(6) pre(2) have "\<not> timeout"
      by (auto split: if_splits)
    with ra show ?thesis
      by (auto simp: running_def exit_status_def split: option.splits)
  qed
  with srv ra nk show ?thesis by simp
qed simp_all

theorem teardown_leaves_server_stopped_witness:
  "\<not> running (fst (snd (pairing 5 False (quiet_world 2 (sample_tester 1 3)) (initial 0)))) Server
   \<and> Interrupt Tester \<notin> set (fst (pairing 5 False (quiet_world 2 (sample_tester 1 3)) (initial 0)))
   \<and> \<not> running (fst (snd (pairing 5 False (quiet_world 2 (sample_tester 1 3)) (initial 0)))) Tester"
proof -
  let ?a = "pairing 5 False (quiet_world 2 (sample_tester 1 3)) (initial 0)"
  have a: "?a = (fst ?a, fst (snd ?a), Ok ())"
    by (simp add: run_defs)
  show ?thesis
    using teardown_leaves_server_stopped [OF a] by (simp add: run_defs)
qed

theorem timed_out_tester_counterexample:
  "snd (snd (pairing 5 False (quiet_world 2 stubborn_tester) (initial 0))) = Ok ()
   \<and> rows (fst (pairing 5 False (quiet_world 2 stubborn_tester) (initial 0))) = [Timeout 5]
   \<and> running (fst (snd (pairing 5 False (quiet_world 2 stubborn_tester) (initial 0)))) Tester
   \<and> Kill Tester \<notin> set (fst (pairing 5 False (quiet_world 2 stubborn_tester) (initial 0)))"
  by (simp add: run_defs)

section \<open>When the teardown runs\<close>




section \<open>The whole run\<close>




section \<open>When the timeout fires\<close>

text \<open>
  Claim C6, as the code has it, on the exact clock of the model. In a pairing in which
  both launches succeed and no exception arrives, with a timeout \<open>T\<close> that is not
  negative: in silent mode a tester that runs for longer than \<open>T\<close> is reported as
  \<open>Timeout\<close>, and the elapsed time read after the wait is \<open>T\<close>; in progress mode
  a tester that runs for longer than \<open>T\<close> plus one polling interval is reported as
  \<open>Timeout\<close>, and the elapsed time read when the timeout fires is more than \<open>T\<close>
  and at most \<open>T\<close> plus one polling interval.
\<close>

theorem long_tester_times_out:
  assumes run: "pairing T progress w s = (es, s', r)"
    and T: "0 \<le> T"
    and srv: "server_launch w = Ready d sprog" and tst: "tester_launch w = Inr tprog"
    and f: "fault w = None"
    and long: "\<forall>rt. run_time tprog = Some rt \<longrightarrow> (if progress then T + 1 / 10 else T) < rt"
  shows "r = Ok () \<and> rows es = [Timeout T]
    \<and> (if progress
        then T < last (readings es) - hd (readings es)
          \<and> last (readings es) - hd (readings es) \<le> T + 1 / 10
        else last (readings es) - hd (readings es) = T)"
  using run
proof (cases rule: pairing_cases)
  case (reported d' sprog' tprog' es3 s4 timeout es5 s5 es6)
  from reported(1,2) srv tst have eq: "d' = d" "sprog' = sprog" "tprog' = tprog"
    by simp_all
  let ?st = "now s + d"
  let ?s3 = "launched s d sprog tprog"
  from reported(3) f eq
  have a: "await_tester T progress None ?st ?s3 = (es3, s4, Ok timeout)"
    by simp
  have l: "\<forall>e. exit_at (launch tprog ?st) = Some e
      \<longrightarrow> ?st + (if progress then T + 1 / 10 else T) < e"
    using long by (auto simp: launch_def)
  from await_tester_fires [OF a _ _ T l]
  have to: "timeout"
    and el: "if progress then T < now s4 - ?st \<and> now s4 - ?st \<le> T + 1 / 10 else now s4 - ?st = T"
    by simp_all
  from await_tester_trace [OF reported(3)] to obtain pre where
    pre: "list_all observing pre" "es3 = pre @ [Interrupt Tester]"
    by auto
  from teardown_trace [OF reported(4)] obtain x where
    td: "es5 = [Interrupt Server, Wait Server (Some 1) x, Kill Server]"
    by auto
  from report_after_await [OF reported(3,4,5)] to
  have ra: "r = Ok ()" "es6 = [Row (Timeout T)]"
    by simp_all
  from reported(6) pre td ra eq
  have "rows es = [Timeout T]" "hd (readings es) = ?st" "last (readings es) = now s4"
    by (simp_all add: observing_rows)
  with ra(1) el show ?thesis by simp
qed (use srv tst pairing_quiet_Ok [OF run srv tst f] in simp_all)

theorem long_tester_times_out_witness:
  "(0::rat) \<le> 5 \<and> (5::rat) < 7
   \<and> snd (snd (pairing 5 False (quiet_world 2 (sample_tester 7 0)) (initial 0))) = Ok ()
   \<and> rows (fst (pairing 5 False (quiet_world 2 (sample_tester 7 0)) (initial 0))) = [Timeout 5]
   \<and> readings (fst (pairing 5 False (quiet_world 2 (sample_tester 7 0)) (initial 0))) = [2, 7]
   \<and> (0::rat) \<le> 120 \<and> (120::rat) + 1 / 10 < 121
   \<and> rows (fst (pairing 120 True (quiet_world 2 (sample_tester 121 0)) (initial 0)))
       = [Timeout 120]"
proof -
  let ?a = "pairing 5 False (quiet_world 2 (sample_tester 7 0)) (initial 0)"
  let ?b = "pairing 120 True (quiet_world 2 (sample_tester 121 0)) (initial 0)"
  have a: "?a = (fst ?a, fst (snd ?a), snd (snd ?a))" and b: "?b = (fst ?b, fst (snd ?b), snd (snd ?b))"
    by simp_all
  have srv: "server_launch (quiet_world 2 tprog) = Ready 2 sample_server"
    and tst: "tester_launch (quiet_world 2 tprog) = Inr tprog"
    and f: "fault (quiet_world 2 tprog) = None" for tprog
    by (simp_all add: quiet_world_def)
  have la: "\<forall>rt. run_time (sample_tester 7 0) = Some rt \<longrightarrow> (if False then 5 + 1 / 10 else 5) < rt"
    and lb: "\<forall>rt. run_time (sample_tester 121 0) = Some rt
      \<longrightarrow> (if True then 120 + 1 / 10 else 120) < rt"
    by (simp_all add: sample_tester_def)
  have ra: "readings (fst ?a) = [2, 7]"
    by (simp add: run_defs)
  have "(0::rat) \<le> 5" and "(0::rat) \<le> 120"
    by simp_all
  from long_tester_times_out [OF a this(1) srv tst f la]
    long_tester_times_out [OF b this(2) srv tst f lb] ra
  show ?thesis by simp
qed

theorem short_overrun_counterexample:
  "TEST_TIMEOUT < 2401 / 20
   \<and> run_time (sample_tester (2401 / 20) 0) = Some (2401 / 20)
   \<and> snd (snd (pairing TEST_TIMEOUT True (quiet_world 2 (sample_tester (2401 / 20) 0))
        (initial 0))) = Ok ()
   \<and> rows (fst (pairing TEST_TIMEOUT True (quiet_world 2 (sample_tester (2401 / 20) 0))
        (initial 0))) = [Success (2401 / 20)]"
proof -
  let ?tp = "sample_tester (2401 / 20) 0"
  let ?w = "quiet_world 2 ?tp"
  let ?X = "pairing TEST_TIMEOUT True ?w (initial 0)"
  let ?s3 = "launched (initial 0) 2 sample_server ?tp"
  have X: "?X = (fst ?X, fst (snd ?X), snd (snd ?X))"
    by simp
  have srv: "server_launch ?w = Ready 2 sample_server" and tst: "tester_launch ?w = Inr ?tp"
    and f: "fault ?w = None"
    by (simp_all add: quiet_world_def)
  have now0: "now (initial 0) = 0"
    by (simp add: initial_def)
  have ok: "snd (snd ?X) = Ok ()"
    using X srv tst f by (rule pairing_quiet_Ok)
  have ex: "exit_at (launch ?tp 2) = Some (2441 / 20)" and rc: "returncode (launch ?tp 2) = 0"
    by (simp_all add: launch_def sample_tester_def)
  have "\<exists>es. progress_loop TEST_TIMEOUT None 2 ?s3 = (es, ?s3\<lparr>now := max (now ?s3) (2441 / 20)\<rparr>, Ok False)
      \<and> list_all observing es"
    by (rule progress_loop_late_exit [where k = 0 and m = 1201 and h = "launch ?tp 2"])
      (simp_all add: ex now0 TEST_TIMEOUT_def)
  then obtain es3' where
    l: "await_tester TEST_TIMEOUT True None 2 ?s3 = (es3', ?s3\<lparr>now := 2441 / 20\<rparr>, Ok False)"
    by (auto simp: await_tester_def now0)
  from X have "rows (fst ?X) = [Success (2401 / 20)]"
  proof (cases rule: pairing_cases)
    case (reported d sprog tprog es3 s4 timeout es5 s5 es6)
    from reported(1,2) srv tst have eq: "d = 2" "sprog = sample_server" "tprog = ?tp"
      by simp_all
    from reported(3) l f eq now0 have a: "es3 = es3'" "s4 = ?s3\<lparr>now := 2441 / 20\<rparr>" "\<not> timeout"
      by simp_all
    from await_tester_trace [OF reported(3)] a(3) have pre: "list_all observing es3"
      by auto
    from teardown_trace [OF reported(4)] obtain x where
      td: "es5 = [Interrupt Server, Wait Server (Some 1) x, Kill Server]"
      by auto
    from teardown_Ok [OF reported(4)] a(2) have "now s4 \<le> now s5"
      "procs s5 Tester = Some (launch ?tp 2)"
      by (auto simp: now0)
    with ex rc have st: "exit_status s5 Tester = Some 0"
      using a(2) by (simp add: exit_status_def status_def)
    from report_after_await [OF reported(3,4,5)] a(3) st eq now0 a(2)
    have "es6 = [Wait Tester None (Some 0), Row (Success (2401 / 20))]"
      by auto
    with reported(6) pre td show ?thesis
      by (simp add: observing_rows)
  qed (use srv tst ok in simp_all)
  with ok show ?thesis
    by (simp add: TEST_TIMEOUT_def sample_tester_def)
qed

end
